theory Spec2Isabelle
  imports Complex_Main "HOL-Library.Word" "HOL-Library.Log_Nat"
begin

section \<open>Upstream access coordinator (server.js)\<close>

subsection \<open>Errors thrown by the operations wrapped by the coordinator\<close>

text \<open>
  \<^verbatim>\<open>class RateLimitError extends Error\<close> carries the message and \<^verbatim>\<open>retryAfter\<close> in
  milliseconds; \<open>Error\<close> is any other instance of \<^verbatim>\<open>Error\<close> with its message; \<open>NonError\<close>
  stands for a thrown value that is no instance of \<^verbatim>\<open>Error\<close>.
\<close>

datatype js_error = RateLimitError string int | Error string | NonError string

text \<open>\<^verbatim>\<open>String.prototype.includes\<close>: the argument occurs as a contiguous substring.\<close>

fun startsWith :: "string \<Rightarrow> string \<Rightarrow> bool" where
  "startsWith s [] = True"
| "startsWith [] (c # cs) = False"
| "startsWith (d # ds) (c # cs) = (d = c \<and> startsWith ds cs)"

fun str_includes :: "string \<Rightarrow> string \<Rightarrow> bool" where
  "str_includes [] sub = (sub = [])"
| "str_includes (d # ds) sub = (startsWith (d # ds) sub \<or> str_includes ds sub)"

subsection \<open>Retry coordinator: \<^verbatim>\<open>retryWithBackoff\<close>\<close>

text \<open>
  The wrapped operation \<^verbatim>\<open>fn\<close> is effectful; it is modelled by the outcome of each of its
  successive invocations (\<open>fn i\<close> is what the invocation made in loop iteration \<open>i\<close>
  returns or throws). The run records every duration passed to \<^verbatim>\<open>delay\<close>, in order, the
  number of invocations made, and the value returned or error thrown.
\<close>

record 'a retry_run =
  slept :: "int list"
  calls :: nat
  outcome :: "js_error + 'a"

function retryLoop ::
  "(nat \<Rightarrow> js_error + 'a) \<Rightarrow> nat \<Rightarrow> int \<Rightarrow> nat \<Rightarrow> js_error option \<Rightarrow> int list \<Rightarrow> 'a retry_run"
where
  "retryLoop fn maxRetries initialDelay i lastError waits =
     (if i < maxRetries then
        (case fn i of
           Inr v \<Rightarrow> \<lparr>slept = waits, calls = i + 1, outcome = Inr v\<rparr>
         | Inl error \<Rightarrow>
             (case error of
                RateLimitError msg retryAfter \<Rightarrow>
                  (let waitTime = (if retryAfter < 1000 then initialDelay * 2 ^ i else retryAfter)
                   in retryLoop fn maxRetries initialDelay (i + 1) (Some error) (waits @ [waitTime]))
              | Error msg \<Rightarrow>
                  (if str_includes msg ''429''
                   then (let delayMs = initialDelay * 2 ^ i
                         in retryLoop fn maxRetries initialDelay (i + 1) (Some error) (waits @ [delayMs]))
                   else \<lparr>slept = waits, calls = i + 1, outcome = Inl error\<rparr>)
              | NonError v \<Rightarrow> \<lparr>slept = waits, calls = i + 1, outcome = Inl error\<rparr>))
      else \<lparr>slept = waits, calls = i,
             outcome = Inl (case lastError of Some e \<Rightarrow> e | None \<Rightarrow> Error ''Max retries exceeded'')\<rparr>)"
  by pat_completeness auto
termination
  by (relation "measure (\<lambda>(fn, maxRetries, initialDelay, i, lastError, waits). maxRetries - i)") auto

definition retryWithBackoff :: "(nat \<Rightarrow> js_error + 'a) \<Rightarrow> nat \<Rightarrow> int \<Rightarrow> 'a retry_run" where
  "retryWithBackoff fn maxRetries initialDelay = retryLoop fn maxRetries initialDelay 0 None []"

text \<open>The defaults of the source: \<^verbatim>\<open>maxRetries = 5, initialDelay = 2000\<close>.\<close>

definition retryWithBackoff_default :: "(nat \<Rightarrow> js_error + 'a) \<Rightarrow> 'a retry_run" where
  "retryWithBackoff_default fn = retryWithBackoff fn 5 2000"

text \<open>An error after which the loop sleeps and goes on to the next iteration.\<close>

definition retried :: "js_error + 'a \<Rightarrow> bool" where
  "retried r = (case r of
      Inl (RateLimitError msg retryAfter) \<Rightarrow> True
    | Inl (Error msg) \<Rightarrow> str_includes msg ''429''
    | _ \<Rightarrow> False)"

subsection \<open>Response cache: \<^verbatim>\<open>getCached\<close>\<close>

text \<open>
  The process-wide state: the \<^verbatim>\<open>cache\<close> map, the reading of \<^verbatim>\<open>Date.now()\<close>, and the
  rest of the world the fetcher acts on. A fetcher takes the world to its result (a thrown
  error or the fetched data) and the world after it ran.
\<close>

record 'v entry =
  entry_data :: 'v
  timestamp :: int

record ('v, 'w) world =
  cache :: "string \<rightharpoonup> 'v entry"
  clock :: int
  env :: 'w

definition CACHE_TTL :: int where
  "CACHE_TTL = 15 * 60 * 1000"

definition getCached ::
  "string \<Rightarrow> (('v, 'w) world \<Rightarrow> (js_error + 'v) \<times> ('v, 'w) world) \<Rightarrow> int \<Rightarrow> ('v, 'w) world
    \<Rightarrow> (js_error + 'v) \<times> ('v, 'w) world"
where
  "getCached key fetcher ttl w =
     (let miss =
        (case fetcher w of
           (Inl e, w') \<Rightarrow> (Inl e, w')
         | (Inr d, w') \<Rightarrow> (Inr d, w'\<lparr>cache := (cache w')(key \<mapsto> \<lparr>entry_data = d, timestamp = clock w'\<rparr>)\<rparr>))
      in case cache w key of
           Some cached \<Rightarrow> if clock w - timestamp cached < ttl then (Inr (entry_data cached), w) else miss
         | None \<Rightarrow> miss)"

subsection \<open>Design reference client: \<^verbatim>\<open>parseFigmaUrl\<close>\<close>

text \<open>
  \<^verbatim>\<open>new URL(urlStr)\<close> is the platform's parser: it is a parameter, \<open>None\<close> when it throws.
  Of its result the function reads \<^verbatim>\<open>pathname\<close> and \<^verbatim>\<open>searchParams\<close>, the decoded query
  pairs in order.
\<close>

record url =
  pathname :: string
  searchParams :: "(string \<times> string) list"

text \<open>\<^verbatim>\<open>String.prototype.split\<close> with a one-character separator.\<close>

fun split :: "char \<Rightarrow> string \<Rightarrow> string list" where
  "split sep [] = [[]]"
| "split sep (c # cs) =
     (if c = sep then [] # split sep cs
      else (case split sep cs of p # ps \<Rightarrow> (c # p) # ps | [] \<Rightarrow> [[c]]))"

text \<open>\<^verbatim>\<open>URLSearchParams.get\<close>: the value of the first pair with the name, or null.\<close>

fun searchParams_get :: "(string \<times> string) list \<Rightarrow> string \<Rightarrow> string option" where
  "searchParams_get [] name = None"
| "searchParams_get ((k, v) # ps) name = (if k = name then Some v else searchParams_get ps name)"

text \<open>\<^verbatim>\<open>nodeId.replace(/-/g, ':')\<close>.\<close>

definition replaceHyphens :: "string \<Rightarrow> string" where
  "replaceHyphens s = map (\<lambda>c. if c = CHR ''-'' then CHR '':'' else c) s"

record frame_reference =
  fileKey :: "string option"
  nodeId :: "string option"

definition parseFigmaUrl :: "(string \<Rightarrow> url option) \<Rightarrow> string \<Rightarrow> frame_reference" where
  "parseFigmaUrl newURL urlStr =
     (case newURL urlStr of
        None \<Rightarrow> \<lparr>fileKey = None, nodeId = None\<rparr>
      | Some u \<Rightarrow>
          (let pathParts = split CHR ''/'' (pathname u);
               fileKey = (if 2 < length pathParts \<and> pathParts ! 2 \<noteq> [] then Some (pathParts ! 2) else None);
               nodeId = searchParams_get (searchParams u) ''node-id'';
               nodeId = (case nodeId of
                           Some n \<Rightarrow> if n \<noteq> [] then Some (replaceHyphens n) else Some n
                         | None \<Rightarrow> None)
           in \<lparr>fileKey = fileKey, nodeId = nodeId\<rparr>))"

section \<open>Numbers of the image pipeline\<close>

text \<open>
  A JavaScript number is an IEEE-754 double. Integer arithmetic on pixel counts and
  coordinates is exact in doubles below \<open>2^53\<close> and is modelled by \<open>nat\<close> and \<open>int\<close>.
  A quotient is in general not a double: the result of \<^verbatim>\<open>a / b\<close> and of \<^verbatim>\<open>a * b\<close> is
  the exact value rounded to the nearest double, ties to the even significand. The
  rounding is written out here for the normal range of doubles (53 significant bits),
  which holds every value the pipeline computes from dimensions below \<open>2^53\<close>.
\<close>

text \<open>\<open>ilog2 q\<close> is the binary exponent of a positive rational: \<open>2^(ilog2 q) \<le> q < 2^(ilog2 q + 1)\<close>.\<close>

definition ilog2 :: "rat \<Rightarrow> int" where
  "ilog2 q =
     (let (p, d) = quotient_of q; k = bitlen p - bitlen d
      in if 2 powi k \<le> q then k else k - 1)"

definition round_half_even :: "rat \<Rightarrow> int" where
  "round_half_even v =
     (let f = \<lfloor>v\<rfloor>; r = v - of_int f
      in if r < 1 / 2 then f else if 1 / 2 < r then f + 1 else if even f then f else f + 1)"

definition roundToDouble :: "rat \<Rightarrow> rat" where
  "roundToDouble q =
     (if q = 0 then 0
      else (let a = \<bar>q\<bar>; e = ilog2 a - 52; m = round_half_even (a / 2 powi e)
            in sgn q * of_int m * 2 powi e))"

text \<open>
  \<^verbatim>\<open>a / b\<close> and \<^verbatim>\<open>a * b\<close> on doubles. A division by zero gives \<^verbatim>\<open>Infinity\<close> or \<^verbatim>\<open>NaN\<close>
  in the source; the pipeline divides by zero only where the quotient is never read, and
  where it is read (\<open>diffScore\<close>) the model makes the case explicit.
\<close>

definition js_div :: "rat \<Rightarrow> rat \<Rightarrow> rat" where
  "js_div a b = roundToDouble (a / b)"

definition js_mul :: "rat \<Rightarrow> rat \<Rightarrow> rat" where
  "js_mul a b = roundToDouble (a * b)"

section \<open>Image normalizer: \<^verbatim>\<open>resizeImage\<close>\<close>

type_synonym byte = "8 word"

text \<open>
  A decoded image: \<^verbatim>\<open>{width, height, data}\<close>, \<open>data\<close> the RGBA bytes. Well-formed images have
  \<open>4 * width * height\<close> bytes; the format bounds a PNG dimension by \<open>2^31 - 1\<close>.
\<close>

record png =
  png_width :: nat
  png_height :: nat
  png_data :: "byte list"

definition wellFormed :: "png \<Rightarrow> bool" where
  "wellFormed p = (length (png_data p) = 4 * png_width p * png_height p)"

text \<open>Reading a typed array: \<^verbatim>\<open>undefined\<close> (\<open>None\<close>) out of range.\<close>

definition readByte :: "byte list \<Rightarrow> nat \<Rightarrow> byte option" where
  "readByte buf i = (if i < length buf then Some (buf ! i) else None)"

text \<open>
  Writing a typed array: \<^verbatim>\<open>undefined\<close> is stored as 0, a write out of range is ignored
  (as \<open>list_update\<close> does).
\<close>

definition storeByte :: "byte list \<Rightarrow> nat \<Rightarrow> byte option \<Rightarrow> byte list" where
  "storeByte buf i v = buf[i := (case v of Some b \<Rightarrow> b | None \<Rightarrow> 0)]"

text \<open>\<^verbatim>\<open>new PNG({ width, height })\<close>: a zero-filled buffer of \<open>4 * width * height\<close> bytes.\<close>

definition newPNG :: "nat \<Rightarrow> nat \<Rightarrow> png" where
  "newPNG width height = \<lparr>png_width = width, png_height = height, png_data = replicate (4 * width * height) 0\<rparr>"

text \<open>The source coordinate of a destination coordinate: \<^verbatim>\<open>Math.floor(x * scaleX)\<close>.\<close>

definition srcCoord :: "rat \<Rightarrow> nat \<Rightarrow> nat" where
  "srcCoord scale x = nat \<lfloor>js_mul (of_nat x) scale\<rfloor>"

text \<open>The body of the inner loop: the four channel copies of one destination pixel.\<close>

definition copyPixel :: "png \<Rightarrow> nat \<Rightarrow> rat \<Rightarrow> rat \<Rightarrow> nat \<Rightarrow> nat \<Rightarrow> png \<Rightarrow> png" where
  "copyPixel png targetWidth scaleX scaleY y x resized =
     (let srcX = srcCoord scaleX x;
          srcY = srcCoord scaleY y;
          srcIdx = (srcY * png_width png + srcX) * 4;
          dstIdx = (y * targetWidth + x) * 4;
          d0 = storeByte (png_data resized) dstIdx (readByte (png_data png) srcIdx);
          d1 = storeByte d0 (dstIdx + 1) (readByte (png_data png) (srcIdx + 1));
          d2 = storeByte d1 (dstIdx + 2) (readByte (png_data png) (srcIdx + 2));
          d3 = storeByte d2 (dstIdx + 3) (readByte (png_data png) (srcIdx + 3))
      in resized\<lparr>png_data := d3\<rparr>)"

definition resizeImage :: "png \<Rightarrow> nat \<Rightarrow> nat \<Rightarrow> png" where
  "resizeImage png targetWidth targetHeight =
     (if png_width png = targetWidth \<and> png_height png = targetHeight then png
      else (let resized = newPNG targetWidth targetHeight;
                scaleX = js_div (of_nat (png_width png)) (of_nat targetWidth);
                scaleY = js_div (of_nat (png_height png)) (of_nat targetHeight)
            in fold (\<lambda>y resized.
                       fold (\<lambda>x resized. copyPixel png targetWidth scaleX scaleY y x resized)
                         [0..<targetWidth] resized)
                 [0..<targetHeight] resized))"

section \<open>Region analyzer: \<^verbatim>\<open>analyzeImageDifferences\<close>\<close>

subsection \<open>Sensitivity configuration\<close>

record config =
  pixelDiffThreshold :: nat
  blockThreshold :: rat
  minArea :: nat

text \<open>
  The table indexed by \<^verbatim>\<open>sensitivity\<close>, with the fallback of \<^verbatim>\<open>||\<close> for any other value.
  A decimal literal denotes the double nearest to it.
\<close>

definition sensitivityConfig :: "nat \<Rightarrow> config" where
  "sensitivityConfig sensitivity =
     (if sensitivity = 1 then \<lparr>pixelDiffThreshold = 50, blockThreshold = roundToDouble (20 / 100), minArea = 500\<rparr>
      else if sensitivity = 2 then \<lparr>pixelDiffThreshold = 35, blockThreshold = roundToDouble (10 / 100), minArea = 250\<rparr>
      else if sensitivity = 3 then \<lparr>pixelDiffThreshold = 25, blockThreshold = roundToDouble (5 / 100), minArea = 100\<rparr>
      else if sensitivity = 4 then \<lparr>pixelDiffThreshold = 15, blockThreshold = roundToDouble (2 / 100), minArea = 50\<rparr>
      else if sensitivity = 5 then \<lparr>pixelDiffThreshold = 5, blockThreshold = roundToDouble (1 / 100), minArea = 10\<rparr>
      else \<lparr>pixelDiffThreshold = 25, blockThreshold = roundToDouble (5 / 100), minArea = 100\<rparr>)"

definition BLOCK_SIZE :: nat where
  "BLOCK_SIZE = 20"

text \<open>\<^verbatim>\<open>Math.ceil(width / BLOCK_SIZE)\<close>.\<close>

definition blocksAcross :: "nat \<Rightarrow> nat" where
  "blocksAcross width = nat \<lceil>js_div (of_nat width) (of_nat BLOCK_SIZE)\<rceil>"

subsection \<open>Step 1: active blocks\<close>

text \<open>
  \<^verbatim>\<open>Math.abs(screenshot.data[i] - figma.data[i])\<close>. The index into \<^verbatim>\<open>screenshot.data\<close> is in
  range where the source evaluates this (the check before it); \<^verbatim>\<open>figma.data[i]\<close> may be
  \<^verbatim>\<open>undefined\<close>, which makes the difference \<^verbatim>\<open>NaN\<close> (\<open>None\<close>).
\<close>

definition channelDiff :: "byte list \<Rightarrow> byte list \<Rightarrow> nat \<Rightarrow> nat option" where
  "channelDiff sdata fdata i =
     (case readByte fdata i of
        Some b \<Rightarrow> Some (nat \<bar>int (unat (sdata ! i)) - int (unat b)\<bar>)
      | None \<Rightarrow> None)"

text \<open>
  The body of the pixel loop on the counters \<open>(diffPixels, totalPixels)\<close>. A comparison
  with \<^verbatim>\<open>NaN\<close> is false.
\<close>

definition scanPixel ::
  "config \<Rightarrow> png \<Rightarrow> png \<Rightarrow> nat \<Rightarrow> nat \<Rightarrow> nat \<Rightarrow> nat \<times> nat \<Rightarrow> nat \<times> nat"
where
  "scanPixel config screenshot figma width y x counters =
     (let (diffPixels, totalPixels) = counters;
          rowOffset = y * width;
          idx = (rowOffset + x) * 4
      in if length (png_data screenshot) \<le> idx + 2 then (diffPixels, totalPixels)
         else (let rDiff = channelDiff (png_data screenshot) (png_data figma) idx;
                   gDiff = channelDiff (png_data screenshot) (png_data figma) (idx + 1);
                   bDiff = channelDiff (png_data screenshot) (png_data figma) (idx + 2);
                   pixelDiff = (case (rDiff, gDiff, bDiff) of
                                  (Some r, Some g, Some b) \<Rightarrow> Some (js_div (of_nat (r + g + b)) 3)
                                | _ \<Rightarrow> None);
                   exceeds = (case pixelDiff of
                                Some v \<Rightarrow> of_nat (pixelDiffThreshold config) < v
                              | None \<Rightarrow> False)
               in (if exceeds then diffPixels + 1 else diffPixels, totalPixels + 1)))"

definition scanBlock :: "config \<Rightarrow> png \<Rightarrow> png \<Rightarrow> nat \<Rightarrow> nat \<Rightarrow> nat \<Rightarrow> nat \<Rightarrow> nat \<times> nat" where
  "scanBlock config screenshot figma width height bx by =
     (let startX = bx * BLOCK_SIZE;
          startY = by * BLOCK_SIZE;
          endX = min (startX + BLOCK_SIZE) width;
          endY = min (startY + BLOCK_SIZE) height
      in fold (\<lambda>y counters.
                 fold (\<lambda>x counters. scanPixel config screenshot figma width y x counters)
                   [startX..<endX] counters)
           [startY..<endY] (0, 0))"

definition blockIsActive :: "config \<Rightarrow> png \<Rightarrow> png \<Rightarrow> nat \<Rightarrow> nat \<Rightarrow> nat \<Rightarrow> nat \<Rightarrow> bool" where
  "blockIsActive config screenshot figma width height bx by =
     (let (diffPixels, totalPixels) = scanBlock config screenshot figma width height bx by
      in 0 < totalPixels \<and> blockThreshold config < js_div (of_nat diffPixels) (of_nat totalPixels))"

text \<open>
  The flag arrays \<^verbatim>\<open>activeBlocks\<close> and \<^verbatim>\<open>visited\<close> (\<^verbatim>\<open>Uint8Array\<close>, cells 0 or 1) are lists
  of booleans; a read out of range is \<^verbatim>\<open>undefined\<close>, which is falsy.
\<close>

definition flagAt :: "bool list \<Rightarrow> nat \<Rightarrow> bool" where
  "flagAt flags i = (i < length flags \<and> flags ! i)"

definition markActiveBlocks :: "config \<Rightarrow> png \<Rightarrow> png \<Rightarrow> nat \<Rightarrow> nat \<Rightarrow> bool list" where
  "markActiveBlocks config screenshot figma width height =
     (let blocksX = blocksAcross width;
          blocksY = blocksAcross height
      in fold (\<lambda>by activeBlocks.
                 fold (\<lambda>bx activeBlocks.
                         if blockIsActive config screenshot figma width height bx by
                         then activeBlocks[by * blocksX + bx := True]
                         else activeBlocks)
                   [0..<blocksX] activeBlocks)
           [0..<blocksY] (replicate (blocksX * blocksY) False))"

subsection \<open>Step 2: connected components\<close>

text \<open>The bounds of a cluster start at \<^verbatim>\<open>Infinity\<close> and \<^verbatim>\<open>-Infinity\<close>.\<close>

datatype jsnum = NegInfinity | Num int | PosInfinity

fun js_min :: "jsnum \<Rightarrow> int \<Rightarrow> jsnum" where
  "js_min PosInfinity c = Num c"
| "js_min (Num a) c = Num (min a c)"
| "js_min NegInfinity c = NegInfinity"

fun js_max :: "jsnum \<Rightarrow> int \<Rightarrow> jsnum" where
  "js_max NegInfinity c = Num c"
| "js_max (Num a) c = Num (max a c)"
| "js_max PosInfinity c = PosInfinity"

record cluster =
  minX :: jsnum
  minY :: jsnum
  maxX :: jsnum
  maxY :: jsnum
  blockCount :: nat

definition emptyCluster :: cluster where
  "emptyCluster = \<lparr>minX = PosInfinity, minY = PosInfinity, maxX = NegInfinity, maxY = NegInfinity, blockCount = 0\<rparr>"

text \<open>The body of the loop over the four neighbours, on \<open>(stack, visited)\<close>; the top of
  the stack is the head of the list.\<close>

definition visitNeighbor ::
  "nat \<Rightarrow> nat \<Rightarrow> bool list \<Rightarrow> int \<times> int \<Rightarrow> nat list \<times> bool list \<Rightarrow> nat list \<times> bool list"
where
  "visitNeighbor blocksX blocksY activeBlocks n state =
     (let (nx, ny) = n; (stack, visited) = state
      in if 0 \<le> nx \<and> nx < int blocksX \<and> 0 \<le> ny \<and> ny < int blocksY
         then (let nIdx = nat (ny * int blocksX + nx)
               in if flagAt activeBlocks nIdx \<and> \<not> flagAt visited nIdx
                  then (nIdx # stack, visited[nIdx := True])
                  else (stack, visited))
         else (stack, visited))"

definition neighbors :: "nat \<Rightarrow> nat \<Rightarrow> (int \<times> int) list" where
  "neighbors cx cy =
     [(int cx + 1, int cy), (int cx - 1, int cy), (int cx, int cy + 1), (int cx, int cy - 1)]"

definition absorbBlock :: "nat \<Rightarrow> nat \<Rightarrow> cluster \<Rightarrow> cluster" where
  "absorbBlock cx cy c =
     \<lparr>minX = js_min (minX c) (int cx), minY = js_min (minY c) (int cy),
      maxX = js_max (maxX c) (int cx), maxY = js_max (maxY c) (int cy),
      blockCount = blockCount c + 1\<rparr>"

text \<open>The number of active blocks not yet visited: what the traversal uses up.\<close>

definition unvisited :: "bool list \<Rightarrow> bool list \<Rightarrow> nat" where
  "unvisited activeBlocks visited =
     card {i. i < length activeBlocks \<and> activeBlocks ! i \<and> \<not> flagAt visited i}"

text \<open>
  The \<^verbatim>\<open>while (stack.length > 0)\<close> loop. Both flag arrays are allocated with
  \<open>blocksX * blocksY\<close> cells; the first test states this, and outside it the loop of the
  source need not end.
\<close>

function floodFill ::
  "nat \<Rightarrow> nat \<Rightarrow> bool list \<Rightarrow> nat list \<Rightarrow> bool list \<Rightarrow> cluster \<Rightarrow> bool list \<times> cluster"
where
  "floodFill blocksX blocksY activeBlocks stack visited cluster =
     (if length visited \<noteq> length activeBlocks then (visited, cluster)
      else (case stack of
              [] \<Rightarrow> (visited, cluster)
            | currIdx # rest \<Rightarrow>
                (let cx = currIdx mod blocksX;
                     cy = currIdx div blocksX;
                     cluster' = absorbBlock cx cy cluster;
                     (stack', visited') =
                        fold (visitNeighbor blocksX blocksY activeBlocks) (neighbors cx cy) (rest, visited)
                 in floodFill blocksX blocksY activeBlocks stack' visited' cluster')))"
  by pat_completeness auto

lemma unvisited_mark:
  assumes "i < length activeBlocks" "activeBlocks ! i" "\<not> flagAt visited i"
    and "length visited = length activeBlocks"
  shows "unvisited activeBlocks (visited[i := True]) < unvisited activeBlocks visited"
proof -
  let ?A = "{j. j < length activeBlocks \<and> activeBlocks ! j \<and> \<not> flagAt (visited[i := True]) j}"
  let ?B = "{j. j < length activeBlocks \<and> activeBlocks ! j \<and> \<not> flagAt visited j}"
  have fin: "finite ?B" by simp
  have mem: "i \<in> ?B" using assms by simp
  have nmem: "i \<notin> ?A" using assms by (simp add: flagAt_def)
  have sub: "?A \<subseteq> ?B"
  proof
    fix j assume "j \<in> ?A"
    then have j: "j < length activeBlocks" "activeBlocks ! j" "\<not> flagAt (visited[i := True]) j" by simp_all
    have "\<not> flagAt visited j"
    proof
      assume "flagAt visited j"
      then have "j < length visited" "visited ! j" by (simp_all add: flagAt_def)
      then have "flagAt (visited[i := True]) j" by (cases "i = j") (simp_all add: flagAt_def)
      with j(3) show False by simp
    qed
    with j show "j \<in> ?B" by simp
  qed
  from sub mem nmem have "?A \<subset> ?B" by blast
  with fin show ?thesis unfolding unvisited_def by (rule psubset_card_mono)
qed

lemma visitNeighbor_measure:
  assumes "length visited = length activeBlocks"
    and "visitNeighbor blocksX blocksY activeBlocks n (stack, visited) = (stack', visited')"
  shows "length visited' = length activeBlocks \<and>
         2 * unvisited activeBlocks visited' + length stack' \<le> 2 * unvisited activeBlocks visited + length stack"
proof (cases "visitNeighbor blocksX blocksY activeBlocks n (stack, visited) = (stack, visited)")
  case True
  with assms show ?thesis by simp
next
  case False
  obtain nx ny where n: "n = (nx, ny)" by (cases n)
  let ?i = "nat (ny * int blocksX + nx)"
  from False have act: "flagAt activeBlocks ?i" and nv: "\<not> flagAt visited ?i"
    and res: "visitNeighbor blocksX blocksY activeBlocks n (stack, visited) = (?i # stack, visited[?i := True])"
    by (auto simp: visitNeighbor_def n Let_def split: if_splits)
  from act have "?i < length activeBlocks" "activeBlocks ! ?i" by (simp_all add: flagAt_def)
  from unvisited_mark[OF this nv assms(1)] res assms show ?thesis by auto
qed

lemma fold_visitNeighbor_measure:
  assumes "length visited = length activeBlocks"
    and "fold (visitNeighbor blocksX blocksY activeBlocks) ns (stack, visited) = (stack', visited')"
  shows "length visited' = length activeBlocks \<and>
         2 * unvisited activeBlocks visited' + length stack' \<le> 2 * unvisited activeBlocks visited + length stack"
  using assms
proof (induction ns arbitrary: stack visited)
  case Nil
  then show ?case by simp
next
  case (Cons n ns)
  obtain s1 v1 where step: "visitNeighbor blocksX blocksY activeBlocks n (stack, visited) = (s1, v1)"
    by (cases "visitNeighbor blocksX blocksY activeBlocks n (stack, visited)")
  from visitNeighbor_measure[OF Cons.prems(1) step]
  have l1: "length v1 = length activeBlocks"
    and m1: "2 * unvisited activeBlocks v1 + length s1 \<le> 2 * unvisited activeBlocks visited + length stack"
    by simp_all
  from Cons.prems(2) step have "fold (visitNeighbor blocksX blocksY activeBlocks) ns (s1, v1) = (stack', visited')"
    by simp
  from Cons.IH[OF l1 this] m1 show ?case by linarith
qed

termination floodFill
proof (relation "measure (\<lambda>(blocksX, blocksY, activeBlocks, stack, visited, cluster).
                   2 * unvisited activeBlocks visited + length stack)", goal_cases)
  case 1
  then show ?case by simp
next
  case (2 blocksX blocksY activeBlocks stack visited cluster currIdx rest cx cy cluster' p stack' visited')
  then show ?case
    using fold_visitNeighbor_measure[of visited activeBlocks blocksX blocksY "neighbors cx cy" rest stack' visited']
    by auto
qed

text \<open>The loop over all blocks, on \<open>(visited, clusters)\<close>: an active block not yet
  visited seeds a traversal.\<close>

definition seedCluster ::
  "nat \<Rightarrow> nat \<Rightarrow> bool list \<Rightarrow> nat \<Rightarrow> bool list \<times> cluster list \<Rightarrow> bool list \<times> cluster list"
where
  "seedCluster blocksX blocksY activeBlocks i state =
     (let (visited, clusters) = state
      in if flagAt activeBlocks i \<and> \<not> flagAt visited i
         then (let (visited', cluster) =
                     floodFill blocksX blocksY activeBlocks [i] (visited[i := True]) emptyCluster
               in (visited', clusters @ [cluster]))
         else (visited, clusters))"

definition findClusters :: "nat \<Rightarrow> nat \<Rightarrow> bool list \<Rightarrow> cluster list" where
  "findClusters blocksX blocksY activeBlocks =
     snd (fold (seedCluster blocksX blocksY activeBlocks) [0..<blocksX * blocksY]
            (replicate (blocksX * blocksY) False, []))"

subsection \<open>Step 3: issues\<close>

datatype severity = Low | Medium | High

datatype issue_type = Layout | Color

record region =
  region_x :: int
  region_y :: int
  region_width :: int
  region_height :: int

record issue =
  issue_id :: string
  issue_type :: issue_type
  message :: string
  severity :: severity
  region :: region

text \<open>Decimal rendering of a number inside a template literal.\<close>

function showNat :: "nat \<Rightarrow> string" where
  "showNat n = (if n < 10 then [char_of (48 + n)] else showNat (n div 10) @ [char_of (48 + n mod 10)])"
  by pat_completeness auto
termination
  by (relation "measure id") auto

definition showInt :: "int \<Rightarrow> string" where
  "showInt i = (if i < 0 then CHR ''-'' # showNat (nat (- i)) else showNat (nat i))"

text \<open>
  The callback of \<^verbatim>\<open>clusters.forEach\<close>: \<open>None\<close> where it returns without pushing. A cluster
  that absorbed a block has finite bounds, and the traversal produces no other (lemma
  \<open>analyze_clusters_finite\<close> below), so the last case stands for clusters that never occur.
\<close>

definition issueOfCluster :: "config \<Rightarrow> nat \<Rightarrow> nat \<Rightarrow> nat \<times> cluster \<Rightarrow> issue option" where
  "issueOfCluster config width height ic =
     (let (index, cluster) = ic
      in if blockCount cluster < 1 then None
         else (case (minX cluster, minY cluster, maxX cluster, maxY cluster) of
                 (Num cminX, Num cminY, Num cmaxX, Num cmaxY) \<Rightarrow>
                   (let x = cminX * int BLOCK_SIZE;
                        y = cminY * int BLOCK_SIZE;
                        w = (cmaxX - cminX + 1) * int BLOCK_SIZE;
                        h = (cmaxY - cminY + 1) * int BLOCK_SIZE;
                        finalX = max 0 x;
                        finalY = max 0 y;
                        finalW = min w (int width - finalX);
                        finalH = min h (int height - finalY);
                        area = finalW * finalH
                    in if area < int (minArea config) then None
                       else Some \<lparr>issue_id = ''diff-cluster-'' @ showNat index,
                                  issue_type = (if area < 1000 then Color else Layout),
                                  message = ''Difference detected in '' @ showInt finalW @ ''x''
                                            @ showInt finalH @ '' region'',
                                  severity = (if 50000 < area then High
                                              else if 10000 < area then Medium else Low),
                                  region = \<lparr>region_x = finalX, region_y = finalY,
                                            region_width = finalW, region_height = finalH\<rparr>\<rparr>)
               | _ \<Rightarrow> None))"

definition generateIssues :: "config \<Rightarrow> nat \<Rightarrow> nat \<Rightarrow> cluster list \<Rightarrow> issue list" where
  "generateIssues config width height clusters =
     List.map_filter (issueOfCluster config width height) (enumerate 0 clusters)"

subsection \<open>Ranking and capping\<close>

definition sevScore :: "severity \<Rightarrow> int" where
  "sevScore s = (case s of High \<Rightarrow> 3 | Medium \<Rightarrow> 2 | Low \<Rightarrow> 1)"

definition regionArea :: "issue \<Rightarrow> int" where
  "regionArea a = region_width (region a) * region_height (region a)"

text \<open>The comparator passed to \<^verbatim>\<open>sort\<close>: negative when \<open>a\<close> goes before \<open>b\<close>.\<close>

definition compareIssues :: "issue \<Rightarrow> issue \<Rightarrow> int" where
  "compareIssues a b =
     (if sevScore (severity a) \<noteq> sevScore (severity b)
      then sevScore (severity b) - sevScore (severity a)
      else regionArea b - regionArea a)"

text \<open>\<^verbatim>\<open>Array.prototype.sort\<close> is a stable sort by the comparator: insertion sort here.\<close>

fun insertIssue :: "issue \<Rightarrow> issue list \<Rightarrow> issue list" where
  "insertIssue a [] = [a]"
| "insertIssue a (b # bs) = (if compareIssues a b \<le> 0 then a # b # bs else b # insertIssue a bs)"

definition sortIssues :: "issue list \<Rightarrow> issue list" where
  "sortIssues xs = foldr insertIssue xs []"

definition analyzeImageDifferences :: "png \<Rightarrow> png \<Rightarrow> nat \<Rightarrow> nat \<Rightarrow> nat \<Rightarrow> issue list" where
  "analyzeImageDifferences screenshot figma width height sensitivity =
     (let blocksX = blocksAcross width;
          blocksY = blocksAcross height;
          config = sensitivityConfig sensitivity;
          activeBlocks = markActiveBlocks config screenshot figma width height;
          clusters = findClusters blocksX blocksY activeBlocks;
          issues = generateIssues config width height clusters
      in take 20 (sortIssues issues))"

section \<open>The comparison: \<^verbatim>\<open>performComparison\<close> from the decoded images on\<close>

text \<open>
  Decoding and downloading are done by the platform and by libraries; the model starts at
  the two decoded images. \<^verbatim>\<open>pixelmatch\<close> is a library too and a parameter here: given
  the two buffers, the dimensions and the threshold it returns the number of mismatched
  pixels, or throws.
\<close>

type_synonym pixelmatcher = "byte list \<Rightarrow> byte list \<Rightarrow> nat \<Rightarrow> nat \<Rightarrow> rat \<Rightarrow> js_error + nat"

record dimensions =
  dim_width :: nat
  dim_height :: nat

text \<open>\<open>diffScore\<close> is \<open>None\<close> where the source divides by zero (\<^verbatim>\<open>NaN\<close> or \<^verbatim>\<open>Infinity\<close>).\<close>

record comparison_result =
  diffScore :: "rat option"
  resolution :: dimensions
  issues :: "issue list"

definition pixelmatchThreshold :: "nat \<Rightarrow> rat" where
  "pixelmatchThreshold sensitivity =
     (if sensitivity = 1 then roundToDouble (9 / 10)
      else if sensitivity = 2 then roundToDouble (7 / 10)
      else if sensitivity = 3 then roundToDouble (5 / 10)
      else if sensitivity = 4 then roundToDouble (3 / 10)
      else if sensitivity = 5 then roundToDouble (1 / 10)
      else roundToDouble (5 / 10))"

definition performComparison ::
  "pixelmatcher \<Rightarrow> png \<Rightarrow> png \<Rightarrow> dimensions \<Rightarrow> nat \<Rightarrow> js_error + comparison_result"
where
  "performComparison pixelmatch screenshotPng figmaPng dims sensitivity =
     (let width = min (min (png_width screenshotPng) (png_width figmaPng)) (dim_width dims);
          height = min (min (png_height screenshotPng) (png_height figmaPng)) (dim_height dims);
          resizedScreenshot = resizeImage screenshotPng width height;
          resizedFigma = resizeImage figmaPng width height
      in case pixelmatch (png_data resizedScreenshot) (png_data resizedFigma) width height
                (pixelmatchThreshold sensitivity) of
           Inl e \<Rightarrow> Inl e
         | Inr diffPixels \<Rightarrow>
             Inr \<lparr>diffScore = (if width * height = 0 then None
                               else Some (js_div (of_nat diffPixels) (of_nat (width * height)))),
                  resolution = \<lparr>dim_width = width, dim_height = height\<rparr>,
                  issues = analyzeImageDifferences resizedScreenshot resizedFigma width height sensitivity\<rparr>)"

section \<open>Predicates of the statements and example inputs\<close>

text \<open>What is slept after a failing attempt \<open>i\<close> that is retried.\<close>

definition waitAfter :: "int \<Rightarrow> nat \<Rightarrow> js_error + 'a \<Rightarrow> int" where
  "waitAfter initialDelay i r =
     (case r of
        Inl (RateLimitError msg retryAfter) \<Rightarrow> if retryAfter < 1000 then initialDelay * 2 ^ i else retryAfter
      | _ \<Rightarrow> initialDelay * 2 ^ i)"

text \<open>
  A run with the defaults: the first attempt is rate limited with an explicit 5000 ms, the
  second fails with a generic 429, the third succeeds.
\<close>

definition demoFn :: "nat \<Rightarrow> js_error + nat" where
  "demoFn k = (if k = 0 then Inl (RateLimitError ''Figma API rate limit exceeded'' 5000)
               else if k = 1 then Inl (Error ''Figma API error 429: Rate limit exceeded'')
               else Inr 7)"

text \<open>
  A world whose cache holds \<open>frame-data-ABC123-10:20\<close>, fetched at time 1000, and three
  calls: within the TTL with a fetcher that would fail; after the TTL with a fetcher that
  succeeds 250 ms later; after the TTL with a fetcher that fails.
\<close>

definition demoWorld :: "int \<Rightarrow> (nat, unit) world" where
  "demoWorld now =
     \<lparr>cache = [''frame-data-ABC123-10:20'' \<mapsto> \<lparr>entry_data = 7, timestamp = 1000\<rparr>], clock = now, env = ()\<rparr>"

definition failingFetcher :: "(nat, unit) world \<Rightarrow> (js_error + nat) \<times> (nat, unit) world" where
  "failingFetcher w = (Inl (Error ''Figma API error 500: down''), w\<lparr>clock := clock w + 250\<rparr>)"

definition goodFetcher :: "(nat, unit) world \<Rightarrow> (js_error + nat) \<times> (nat, unit) world" where
  "goodFetcher w = (Inr 9, w\<lparr>clock := clock w + 250\<rparr>)"

text \<open>What the platform's parser returns on the three strings used below.\<close>

definition demoNewURL :: "string \<Rightarrow> url option" where
  "demoNewURL s =
     (if s = ''https://www.figma.com/design/ABC123/Name?node-id=10-20''
      then Some \<lparr>pathname = ''/design/ABC123/Name'', searchParams = [(''node-id'', ''10-20'')]\<rparr>
      else if s = ''https://www.figma.com/design/ABC123/Name''
      then Some \<lparr>pathname = ''/design/ABC123/Name'', searchParams = []\<rparr>
      else None)"

text \<open>The two tests of the pixel loop, as predicates of the pixel.\<close>

definition pixelInRange :: "png \<Rightarrow> nat \<Rightarrow> nat \<Rightarrow> nat \<Rightarrow> bool" where
  "pixelInRange screenshot width y x = ((y * width + x) * 4 + 2 < length (png_data screenshot))"

definition pixelDiffers :: "config \<Rightarrow> png \<Rightarrow> png \<Rightarrow> nat \<Rightarrow> nat \<Rightarrow> nat \<Rightarrow> bool" where
  "pixelDiffers config screenshot figma width y x =
     (fst (scanPixel config screenshot figma width y x (0, 0)) = 1)"

text \<open>\<open>a\<close> may stand before \<open>b\<close> in the ranking: higher severity, or the same severity and
  no smaller area.\<close>

definition ranksBefore :: "issue \<Rightarrow> issue \<Rightarrow> bool" where
  "ranksBefore a b =
     (sevScore (severity b) < sevScore (severity a)
      \<or> (severity a = severity b \<and> regionArea b \<le> regionArea a))"

text \<open>An image given by the colour of each pixel: the bytes \<open>r, g, b, a\<close> of pixel
  \<open>(x, y)\<close> stand at index \<open>(y * width + x) * 4\<close>.\<close>

definition rgbaImage :: "nat \<Rightarrow> nat \<Rightarrow> (nat \<Rightarrow> nat \<Rightarrow> byte \<times> byte \<times> byte \<times> byte) \<Rightarrow> png" where
  "rgbaImage w h colour =
     \<lparr>png_width = w, png_height = h,
      png_data = concat (map (\<lambda>i. case colour (i mod w) (i div w) of (r, g, b, a) \<Rightarrow> [r, g, b, a]) [0..<w * h])\<rparr>"

text \<open>
  Two 100 x 100 images, black and opaque, identical except in the 30 x 30 block at one
  corner of the image, which is white in the second: every colour channel differs there
  by 255. The corner is the left or right one (\<open>right\<close>) at the top or bottom (\<open>bottom\<close>).
\<close>

definition black :: "byte \<times> byte \<times> byte \<times> byte" where
  "black = (0, 0, 0, 255)"

definition white :: "byte \<times> byte \<times> byte \<times> byte" where
  "white = (255, 255, 255, 255)"

definition inCorner :: "bool \<Rightarrow> bool \<Rightarrow> nat \<Rightarrow> nat \<Rightarrow> bool" where
  "inCorner right bottom x y =
     ((if right then 70 \<le> x else x < 30) \<and> (if bottom then 70 \<le> y else y < 30))"

definition solidImage :: png where
  "solidImage = rgbaImage 100 100 (\<lambda>x y. black)"

definition cornerImage :: "bool \<Rightarrow> bool \<Rightarrow> png" where
  "cornerImage right bottom = rgbaImage 100 100 (\<lambda>x y. if inCorner right bottom x y then white else black)"

text \<open>The columns (or rows) of blocks that a corner reaches: 30 pixels are one block and a
  half.\<close>

definition reaches :: "bool \<Rightarrow> nat \<Rightarrow> bool" where
  "reaches far b = (if far then 3 \<le> b else b < 2)"

definition scenarioIssue :: "bool \<Rightarrow> bool \<Rightarrow> issue" where
  "scenarioIssue right bottom =
     \<lparr>issue_id = ''diff-cluster-0'', issue_type = Layout,
      message = ''Difference detected in 40x40 region'', severity = Low,
      region = \<lparr>region_x = (if right then 60 else 0), region_y = (if bottom then 60 else 0),
                region_width = 40, region_height = 40\<rparr>\<rparr>"

text \<open>Two buffers of the same length that agree on every byte but the alpha bytes (the
  indices congruent to 3 modulo 4).\<close>

definition agreeOffAlpha :: "byte list \<Rightarrow> byte list \<Rightarrow> bool" where
  "agreeOffAlpha a b = (length a = length b \<and> (\<forall>i < length a. i mod 4 \<noteq> 3 \<longrightarrow> a ! i = b ! i))"

text \<open>The byte written to channel \<open>c\<close> of destination pixel \<open>(x, y)\<close>.\<close>

definition copiedByte :: "png \<Rightarrow> rat \<Rightarrow> rat \<Rightarrow> nat \<Rightarrow> nat \<Rightarrow> nat \<Rightarrow> byte" where
  "copiedByte png scaleX scaleY y x c =
     (case readByte (png_data png) ((srcCoord scaleY y * png_width png + srcCoord scaleX x) * 4 + c) of
        Some b \<Rightarrow> b | None \<Rightarrow> 0)"

text \<open>
  A 30 x 1 image whose red channel holds the column number, resampled to 22 x 1. The
  quotient \<open>30 / 22\<close> rounds down to a double, and 11 times that double rounds to the double
  just below 15.
\<close>

definition rampImage :: png where
  "rampImage = rgbaImage 30 1 (\<lambda>x y. (of_nat x, 0, 0, 255))"

text \<open>A pixel matcher without tolerance: it counts the pixels whose four bytes differ.\<close>

definition exactPixelmatch :: pixelmatcher where
  "exactPixelmatch img1 img2 width height threshold =
     (if length img1 \<noteq> length img2 then Inl (Error ''Image sizes do not match.'')
      else if length img1 \<noteq> width * height * 4 then Inl (Error ''Image data size does not match width/height.'')
      else Inr (length (filter (\<lambda>i. take 4 (drop (4 * i) img1) \<noteq> take 4 (drop (4 * i) img2))
                          [0..<width * height])))"

text \<open>The corner image and the solid image with other alpha bytes.\<close>

definition fadedCornerImage :: png where
  "fadedCornerImage = rgbaImage 100 100 (\<lambda>x y. if inCorner False False x y then (255, 255, 255, 0) else (0, 0, 0, 128))"

definition fadedSolidImage :: png where
  "fadedSolidImage = rgbaImage 100 100 (\<lambda>x y. (0, 0, 0, 17))"

text \<open>A cluster that has absorbed a block: its bounds are numbers.\<close>

definition finiteCluster :: "cluster \<Rightarrow> bool" where
  "finiteCluster c =
     (1 \<le> blockCount c \<and> (\<exists>a. minX c = Num a) \<and> (\<exists>b. minY c = Num b)
      \<and> (\<exists>e. maxX c = Num e) \<and> (\<exists>f. maxY c = Num f))"

text \<open>A cluster as the loop can hold it: the fresh one, or one that absorbed blocks.\<close>

definition properCluster :: "cluster \<Rightarrow> bool" where
  "properCluster c =
     (minX c \<noteq> NegInfinity \<and> minY c \<noteq> NegInfinity \<and> maxX c \<noteq> PosInfinity \<and> maxY c \<noteq> PosInfinity)"

text \<open>The block thresholds of the table, in hundredths.\<close>

definition thresholdPercent :: "nat \<Rightarrow> nat" where
  "thresholdPercent sensitivity =
     (if sensitivity = 1 then 20 else if sensitivity = 2 then 10 else if sensitivity = 3 then 5
      else if sensitivity = 4 then 2 else if sensitivity = 5 then 1 else 5)"

section \<open>Properties of the retry coordinator\<close>

declare retryLoop.simps [simp del]

lemma retryLoop_exhausted:
  "\<not> i < maxRetries \<Longrightarrow>
   retryLoop fn maxRetries initialDelay i lastError waits =
     \<lparr>slept = waits, calls = i,
      outcome = Inl (case lastError of Some e \<Rightarrow> e | None \<Rightarrow> Error ''Max retries exceeded'')\<rparr>"
  by (subst retryLoop.simps) simp

lemma retryLoop_success:
  "i < maxRetries \<Longrightarrow> fn i = Inr v \<Longrightarrow>
   retryLoop fn maxRetries initialDelay i lastError waits = \<lparr>slept = waits, calls = i + 1, outcome = Inr v\<rparr>"
  by (subst retryLoop.simps) simp

lemma retryLoop_rate_limited:
  "i < maxRetries \<Longrightarrow> fn i = Inl (RateLimitError msg retryAfter) \<Longrightarrow>
   retryLoop fn maxRetries initialDelay i lastError waits =
     retryLoop fn maxRetries initialDelay (i + 1) (Some (RateLimitError msg retryAfter))
       (waits @ [if retryAfter < 1000 then initialDelay * 2 ^ i else retryAfter])"
  by (subst retryLoop.simps) (simp add: Let_def)

lemma retryLoop_429:
  "i < maxRetries \<Longrightarrow> fn i = Inl (Error msg) \<Longrightarrow> str_includes msg ''429'' \<Longrightarrow>
   retryLoop fn maxRetries initialDelay i lastError waits =
     retryLoop fn maxRetries initialDelay (i + 1) (Some (Error msg)) (waits @ [initialDelay * 2 ^ i])"
  by (subst retryLoop.simps) (simp add: Let_def)

lemma retryLoop_propagates:
  "i < maxRetries \<Longrightarrow> fn i = Inl e \<Longrightarrow> \<not> retried (fn i) \<Longrightarrow>
   retryLoop fn maxRetries initialDelay i lastError waits = \<lparr>slept = waits, calls = i + 1, outcome = Inl e\<rparr>"
  by (subst retryLoop.simps) (auto simp: retried_def split: js_error.splits)

lemma retryLoop_retried:
  assumes "i < maxRetries" "retried (fn i)"
  shows "\<exists>e. retryLoop fn maxRetries initialDelay i lastError waits =
     retryLoop fn maxRetries initialDelay (i + 1) (Some e) (waits @ [waitAfter initialDelay i (fn i)])"
proof (cases "fn i")
  case (Inr v)
  with assms show ?thesis by (simp add: retried_def)
next
  case (Inl e)
  show ?thesis
  proof (cases e)
    case (RateLimitError msg r)
    with Inl retryLoop_rate_limited[where fn=fn and i=i, OF assms(1)] show ?thesis
      by (auto simp: waitAfter_def)
  next
    case (Error msg)
    with Inl assms(2) have "str_includes msg ''429''" by (simp add: retried_def)
    with Inl Error retryLoop_429[where fn=fn and i=i, OF assms(1)] show ?thesis
      by (auto simp: waitAfter_def)
  next
    case (NonError v)
    with Inl assms show ?thesis by (simp add: retried_def)
  qed
qed

lemma retryLoop_prefix:
  "\<exists>rest. slept (retryLoop fn maxRetries initialDelay i lastError waits) = waits @ rest"
proof (induction "maxRetries - i" arbitrary: i lastError waits)
  case 0
  then have "\<not> i < maxRetries" by simp
  then show ?case by (simp add: retryLoop_exhausted)
next
  case (Suc n)
  then have lt: "i < maxRetries" by simp
  show ?case
  proof (cases "retried (fn i)")
    case True
    from retryLoop_retried[where fn=fn and i=i, OF lt True] obtain e where
      step: "retryLoop fn maxRetries initialDelay i lastError waits =
        retryLoop fn maxRetries initialDelay (i + 1) (Some e) (waits @ [waitAfter initialDelay i (fn i)])"
      by blast
    from Suc(2) have "n = maxRetries - (i + 1)" by simp
    from Suc(1)[OF this, of "Some e" "waits @ [waitAfter initialDelay i (fn i)]"] step
    show ?thesis by auto
  next
    case False
    show ?thesis
    proof (cases "fn i")
      case (Inl e)
      from retryLoop_propagates[where fn=fn and i=i, OF lt Inl False] show ?thesis by simp
    next
      case (Inr v)
      from retryLoop_success[where fn=fn and i=i, OF lt Inr] show ?thesis by simp
    qed
  qed
qed

lemma retryLoop_calls:
  "i \<le> calls (retryLoop fn maxRetries initialDelay i lastError waits)"
proof (induction "maxRetries - i" arbitrary: i lastError waits)
  case 0
  then have "\<not> i < maxRetries" by simp
  then show ?case by (simp add: retryLoop_exhausted)
next
  case (Suc n)
  then have lt: "i < maxRetries" by simp
  show ?case
  proof (cases "retried (fn i)")
    case True
    from retryLoop_retried[where fn=fn and i=i, OF lt True] obtain e where
      step: "retryLoop fn maxRetries initialDelay i lastError waits =
        retryLoop fn maxRetries initialDelay (i + 1) (Some e) (waits @ [waitAfter initialDelay i (fn i)])"
      by blast
    from Suc(2) have "n = maxRetries - (i + 1)" by simp
    from Suc(1)[OF this, of "Some e" "waits @ [waitAfter initialDelay i (fn i)]"] step
    show ?thesis by simp
  next
    case False
    show ?thesis
    proof (cases "fn i")
      case (Inl e)
      from retryLoop_propagates[where fn=fn and i=i, OF lt Inl False] show ?thesis by simp
    next
      case (Inr v)
      from retryLoop_success[where fn=fn and i=i, OF lt Inr] show ?thesis by simp
    qed
  qed
qed

text \<open>Attempt \<open>k\<close> is reached when every attempt from \<open>i\<close> on before it was retried; the
  wait list then has one entry for each of them.\<close>

lemma retryLoop_reaches:
  assumes "i \<le> k" "k < maxRetries" "\<forall>j. i \<le> j \<and> j < k \<longrightarrow> retried (fn j)"
  shows "\<exists>lastError' waits'. length waits' = length waits + (k - i) \<and>
           retryLoop fn maxRetries initialDelay i lastError waits =
           retryLoop fn maxRetries initialDelay k lastError' waits'"
  using assms
proof (induction "k - i" arbitrary: i lastError waits)
  case 0
  then have "i = k" by simp
  then show ?case by auto
next
  case (Suc n)
  then have lt: "i < maxRetries" and ik: "i < k" by simp_all
  with Suc.prems have r: "retried (fn i)" by simp
  from retryLoop_retried[where fn=fn and i=i, OF lt r] obtain e where
    step: "retryLoop fn maxRetries initialDelay i lastError waits =
      retryLoop fn maxRetries initialDelay (i + 1) (Some e) (waits @ [waitAfter initialDelay i (fn i)])"
    by blast
  have "n = k - (i + 1)" "i + 1 \<le> k" "\<forall>j. i + 1 \<le> j \<and> j < k \<longrightarrow> retried (fn j)"
    using Suc.hyps(2) ik Suc.prems(3) by simp_all
  from Suc.hyps(1)[where i="i + 1" and lastError="Some e" and waits="waits @ [waitAfter initialDelay i (fn i)]",
      OF this(1) this(2) Suc.prems(2) this(3)]
  obtain le' ws' where "length ws' = length (waits @ [waitAfter initialDelay i (fn i)]) + (k - (i + 1))"
    "retryLoop fn maxRetries initialDelay (i + 1) (Some e) (waits @ [waitAfter initialDelay i (fn i)]) =
     retryLoop fn maxRetries initialDelay k le' ws'" by blast
  with step ik show ?case by (intro exI[of _ le'] exI[of _ ws']) simp
qed

lemma retry_attempt_retried:
  assumes "i < maxRetries" "\<forall>j<i. retried (fn j)" "retried (fn i)"
  shows "i < length (slept (retryWithBackoff fn maxRetries initialDelay)) \<and>
         slept (retryWithBackoff fn maxRetries initialDelay) ! i = waitAfter initialDelay i (fn i) \<and>
         i + 1 \<le> calls (retryWithBackoff fn maxRetries initialDelay)"
proof -
  from retryLoop_reaches[of 0 i maxRetries fn "[]" initialDelay None] assms
  obtain le' ws' where len: "length ws' = i"
    and eq: "retryWithBackoff fn maxRetries initialDelay = retryLoop fn maxRetries initialDelay i le' ws'"
    by (auto simp: retryWithBackoff_def)
  from retryLoop_retried[where fn=fn and i=i, OF assms(1) assms(3)] obtain e where
    step: "retryLoop fn maxRetries initialDelay i le' ws' =
      retryLoop fn maxRetries initialDelay (i + 1) (Some e) (ws' @ [waitAfter initialDelay i (fn i)])"
    by blast
  from retryLoop_prefix[of fn maxRetries initialDelay "i + 1" "Some e" "ws' @ [waitAfter initialDelay i (fn i)]"]
  obtain rest where "slept (retryLoop fn maxRetries initialDelay (i + 1) (Some e) (ws' @ [waitAfter initialDelay i (fn i)]))
     = (ws' @ [waitAfter initialDelay i (fn i)]) @ rest" by blast
  with eq step len have "slept (retryWithBackoff fn maxRetries initialDelay) = ws' @ waitAfter initialDelay i (fn i) # rest"
    by simp
  moreover from retryLoop_calls[of "i + 1" fn maxRetries initialDelay "Some e" "ws' @ [waitAfter initialDelay i (fn i)]"] eq step
  have "i + 1 \<le> calls (retryWithBackoff fn maxRetries initialDelay)" by simp
  ultimately show ?thesis using len by (simp add: nth_append)
qed

lemma retry_attempt_propagates:
  assumes "i < maxRetries" "\<forall>j<i. retried (fn j)" "fn i = Inl e" "\<not> retried (fn i)"
  shows "outcome (retryWithBackoff fn maxRetries initialDelay) = Inl e \<and>
         calls (retryWithBackoff fn maxRetries initialDelay) = i + 1 \<and>
         length (slept (retryWithBackoff fn maxRetries initialDelay)) = i"
proof -
  from retryLoop_reaches[of 0 i maxRetries fn "[]" initialDelay None] assms
  obtain le' ws' where len: "length ws' = i"
    and eq: "retryWithBackoff fn maxRetries initialDelay = retryLoop fn maxRetries initialDelay i le' ws'"
    by (auto simp: retryWithBackoff_def)
  from retryLoop_propagates[where fn=fn and i=i, OF assms(1) assms(3) assms(4)] eq len show ?thesis by simp
qed

text \<open>
  C3. Let attempt \<open>i\<close> (0-indexed, \<open>i < maxRetries\<close>) be reached, every earlier attempt
  having failed with a retried error, and let it fail with \<open>e\<close>. If \<open>e\<close> is a
  \<open>RateLimitError\<close> carrying at least 1000 ms, the \<open>i\<close>-th sleep of the run is exactly that
  duration; if it carries less, or \<open>e\<close> is another \<open>Error\<close> whose message includes
  \<open>429\<close>, the \<open>i\<close>-th sleep is \<open>initialDelay * 2^i\<close> (\<open>initialDelay\<close> is 2000 by default);
  for any other \<open>e\<close> the run ends with \<open>e\<close> after \<open>i + 1\<close> invocations and \<open>i\<close> sleeps:
  no sleep and no attempt follows.
\<close>

theorem retry_policy:
  assumes "i < maxRetries" and "\<forall>j<i. retried (fn j)" and "fn i = Inl e"
  shows "(\<forall>msg retryAfter. e = RateLimitError msg retryAfter \<and> 1000 \<le> retryAfter \<longrightarrow>
            i < length (slept (retryWithBackoff fn maxRetries initialDelay)) \<and>
            slept (retryWithBackoff fn maxRetries initialDelay) ! i = retryAfter)
       \<and> (\<forall>msg retryAfter. e = RateLimitError msg retryAfter \<and> retryAfter < 1000 \<longrightarrow>
            i < length (slept (retryWithBackoff fn maxRetries initialDelay)) \<and>
            slept (retryWithBackoff fn maxRetries initialDelay) ! i = initialDelay * 2 ^ i)
       \<and> (\<forall>msg. e = Error msg \<and> str_includes msg ''429'' \<longrightarrow>
            i < length (slept (retryWithBackoff fn maxRetries initialDelay)) \<and>
            slept (retryWithBackoff fn maxRetries initialDelay) ! i = initialDelay * 2 ^ i)
       \<and> ((\<forall>msg retryAfter. e \<noteq> RateLimitError msg retryAfter) \<and>
          (\<forall>msg. e = Error msg \<longrightarrow> \<not> str_includes msg ''429'') \<longrightarrow>
            outcome (retryWithBackoff fn maxRetries initialDelay) = Inl e \<and>
            calls (retryWithBackoff fn maxRetries initialDelay) = i + 1 \<and>
            length (slept (retryWithBackoff fn maxRetries initialDelay)) = i)"
proof (cases "retried (fn i)")
  case True
  note r = retry_attempt_retried[OF assms(1) assms(2) True, of initialDelay]
  from True assms(3) have neg: "\<not> ((\<forall>msg retryAfter. e \<noteq> RateLimitError msg retryAfter) \<and>
          (\<forall>msg. e = Error msg \<longrightarrow> \<not> str_includes msg ''429''))"
    by (cases e) (auto simp: retried_def)
  from r assms(3) neg show ?thesis by (auto simp: waitAfter_def)
next
  case False
  note p = retry_attempt_propagates[OF assms(1) assms(2) assms(3) False, of initialDelay]
  from False assms(3) have "\<forall>msg retryAfter. e \<noteq> RateLimitError msg retryAfter"
    and "\<forall>msg. e = Error msg \<longrightarrow> \<not> str_includes msg ''429''"
    by (auto simp: retried_def)
  with p show ?thesis by auto
qed

theorem retry_policy_witness:
  "(1::nat) < 5 \<and> retried (demoFn 0) \<and> demoFn 1 = Inl (Error ''Figma API error 429: Rate limit exceeded'')
   \<and> str_includes ''Figma API error 429: Rate limit exceeded'' ''429''
   \<and> slept (retryWithBackoff_default demoFn) ! 1 = 4000
   \<and> slept (retryWithBackoff_default demoFn) = [5000, 4000]
   \<and> outcome (retryWithBackoff_default demoFn) = Inr 7"
proof -
  have a: "(1::nat) < 5" by simp
  have b: "\<forall>j<1. retried (demoFn j)" by (simp add: demoFn_def retried_def)
  have c: "demoFn 1 = Inl (Error ''Figma API error 429: Rate limit exceeded'')" by (simp add: demoFn_def)
  have d: "str_includes ''Figma API error 429: Rate limit exceeded'' ''429''" by simp
  have run: "retryWithBackoff_default demoFn = \<lparr>slept = [5000, 4000], calls = 3, outcome = Inr 7\<rparr>"
    unfolding retryWithBackoff_default_def retryWithBackoff_def
    by (simp add: retryLoop.simps demoFn_def)
  from retry_policy[OF a b c, of 2000] d run b c show ?thesis
    by (simp add: retryWithBackoff_default_def)
qed

section \<open>Properties of the response cache\<close>

lemma getCached_hit:
  "cache w key = Some cached \<Longrightarrow> clock w - timestamp cached < ttl \<Longrightarrow>
   getCached key fetcher ttl w = (Inr (entry_data cached), w)"
  by (simp add: getCached_def)

lemma getCached_miss:
  "cache w key = None \<or> (\<exists>cached. cache w key = Some cached \<and> \<not> clock w - timestamp cached < ttl) \<Longrightarrow>
   getCached key fetcher ttl w =
     (case fetcher w of
        (Inl e, w') \<Rightarrow> (Inl e, w')
      | (Inr d, w') \<Rightarrow> (Inr d, w'\<lparr>cache := (cache w')(key \<mapsto> \<lparr>entry_data = d, timestamp = clock w'\<rparr>)\<rparr>))"
  by (auto simp: getCached_def)

text \<open>
  C4. On a hit (an entry for the key with \<open>now - timestamp < ttl\<close>) \<open>getCached\<close> returns the
  cached value and leaves the world as it was, whatever the fetcher is: the fetcher is not
  run. Otherwise the fetcher runs; when it returns \<open>d\<close>, the entry \<open>{data = d, timestamp}\<close>
  with the clock read after the fetch is stored under the key and \<open>d\<close> is returned; when
  it throws, the error is the result and the world, the cache with it, is as the fetcher
  left it: nothing is stored.
\<close>

theorem getCached_contract:
  "(\<forall>cached. cache w key = Some cached \<and> clock w - timestamp cached < ttl \<longrightarrow>
       getCached key fetcher ttl w = (Inr (entry_data cached), w))
   \<and> (cache w key = None \<or> (\<exists>cached. cache w key = Some cached \<and> \<not> clock w - timestamp cached < ttl) \<longrightarrow>
        (\<forall>d w'. fetcher w = (Inr d, w') \<longrightarrow>
           getCached key fetcher ttl w =
             (Inr d, w'\<lparr>cache := (cache w')(key \<mapsto> \<lparr>entry_data = d, timestamp = clock w'\<rparr>)\<rparr>))
      \<and> (\<forall>e w'. fetcher w = (Inl e, w') \<longrightarrow>
           getCached key fetcher ttl w = (Inl e, w') \<and> cache (snd (getCached key fetcher ttl w)) = cache w'))"
proof (intro conjI allI impI)
  fix cached
  assume "cache w key = Some cached \<and> clock w - timestamp cached < ttl"
  then show "getCached key fetcher ttl w = (Inr (entry_data cached), w)"
    by (simp add: getCached_hit)
next
  fix d w'
  assume "cache w key = None \<or> (\<exists>cached. cache w key = Some cached \<and> \<not> clock w - timestamp cached < ttl)"
    and "fetcher w = (Inr d, w')"
  then show "getCached key fetcher ttl w =
      (Inr d, w'\<lparr>cache := (cache w')(key \<mapsto> \<lparr>entry_data = d, timestamp = clock w'\<rparr>)\<rparr>)"
    by (simp add: getCached_miss)
next
  fix e w'
  assume m: "cache w key = None \<or> (\<exists>cached. cache w key = Some cached \<and> \<not> clock w - timestamp cached < ttl)"
    and f: "fetcher w = (Inl e, w')"
  from m f show "getCached key fetcher ttl w = (Inl e, w')" by (simp add: getCached_miss)
  from m f show "cache (snd (getCached key fetcher ttl w)) = cache w'" by (simp add: getCached_miss)
qed

theorem getCached_contract_witness:
  "getCached ''frame-data-ABC123-10:20'' failingFetcher CACHE_TTL (demoWorld 900999) = (Inr 7, demoWorld 900999)
   \<and> fst (getCached ''frame-data-ABC123-10:20'' goodFetcher CACHE_TTL (demoWorld 901000)) = Inr 9
   \<and> cache (snd (getCached ''frame-data-ABC123-10:20'' goodFetcher CACHE_TTL (demoWorld 901000)))
        ''frame-data-ABC123-10:20'' = Some \<lparr>entry_data = 9, timestamp = 901250\<rparr>
   \<and> fst (getCached ''frame-data-ABC123-10:20'' failingFetcher CACHE_TTL (demoWorld 901000))
        = Inl (Error ''Figma API error 500: down'')
   \<and> cache (snd (getCached ''frame-data-ABC123-10:20'' failingFetcher CACHE_TTL (demoWorld 901000)))
        ''frame-data-ABC123-10:20'' = Some \<lparr>entry_data = 7, timestamp = 1000\<rparr>"
proof -
  have hit: "cache (demoWorld 900999) ''frame-data-ABC123-10:20'' = Some \<lparr>entry_data = 7, timestamp = 1000\<rparr>
      \<and> clock (demoWorld 900999) - timestamp \<lparr>entry_data = 7::nat, timestamp = 1000\<rparr> < CACHE_TTL"
    by (simp add: demoWorld_def CACHE_TTL_def)
  have stale: "cache (demoWorld 901000) ''frame-data-ABC123-10:20'' = None \<or>
      (\<exists>cached. cache (demoWorld 901000) ''frame-data-ABC123-10:20'' = Some cached
         \<and> \<not> clock (demoWorld 901000) - timestamp cached < CACHE_TTL)"
    by (simp add: demoWorld_def CACHE_TTL_def)
  have good: "goodFetcher (demoWorld 901000) = (Inr 9, (demoWorld 901000)\<lparr>clock := 901250\<rparr>)"
    by (simp add: goodFetcher_def demoWorld_def)
  have bad: "failingFetcher (demoWorld 901000) =
      (Inl (Error ''Figma API error 500: down''), (demoWorld 901000)\<lparr>clock := 901250\<rparr>)"
    by (simp add: failingFetcher_def demoWorld_def)
  from getCached_contract[of "demoWorld 900999" "''frame-data-ABC123-10:20''" CACHE_TTL failingFetcher] hit
  have 1: "getCached ''frame-data-ABC123-10:20'' failingFetcher CACHE_TTL (demoWorld 900999) = (Inr 7, demoWorld 900999)"
    by simp
  from getCached_contract[of "demoWorld 901000" "''frame-data-ABC123-10:20''" CACHE_TTL goodFetcher] stale good
  have 2: "getCached ''frame-data-ABC123-10:20'' goodFetcher CACHE_TTL (demoWorld 901000) =
      (Inr 9, (demoWorld 901000)\<lparr>clock := 901250\<rparr>\<lparr>cache := (cache ((demoWorld 901000)\<lparr>clock := 901250\<rparr>))
         (''frame-data-ABC123-10:20'' \<mapsto> \<lparr>entry_data = 9, timestamp = clock ((demoWorld 901000)\<lparr>clock := 901250\<rparr>)\<rparr>)\<rparr>)"
    by blast
  from getCached_contract[of "demoWorld 901000" "''frame-data-ABC123-10:20''" CACHE_TTL failingFetcher] stale bad
  have 3: "getCached ''frame-data-ABC123-10:20'' failingFetcher CACHE_TTL (demoWorld 901000) =
      (Inl (Error ''Figma API error 500: down''), (demoWorld 901000)\<lparr>clock := 901250\<rparr>)"
    by blast
  show ?thesis unfolding 1 2 3 by (simp add: demoWorld_def)
qed

section \<open>Properties of the design reference parser\<close>

lemma split_nonempty: "split sep s \<noteq> []"
  by (induction s) (auto split: list.splits)

lemma split_no_sep: "sep \<notin> set s \<Longrightarrow> split sep s = [s]"
  by (induction s) auto

lemma split_segment: "sep \<notin> set a \<Longrightarrow> split sep (a @ sep # b) = a # split sep b"
  by (induction a) auto

lemma split_length: "length (split sep s) = Suc (length (filter (\<lambda>c. c = sep) s))"
proof (induction s)
  case Nil
  then show ?case by simp
next
  case (Cons c cs)
  then show ?case using split_nonempty[of sep cs] by (auto split: list.splits)
qed

lemma split_third:
  assumes "sep \<notin> set s0" "sep \<notin> set s1" "sep \<notin> set s2" "rest = [] \<or> hd rest = sep"
  shows "2 < length (split sep (s0 @ sep # s1 @ sep # s2 @ rest))
         \<and> split sep (s0 @ sep # s1 @ sep # s2 @ rest) ! 2 = s2"
proof -
  have a: "split sep (s0 @ sep # s1 @ sep # s2 @ rest) = s0 # s1 # split sep (s2 @ rest)"
    using split_segment[OF assms(1), of "s1 @ sep # s2 @ rest"] split_segment[OF assms(2), of "s2 @ rest"]
    by simp
  have "\<exists>tl. split sep (s2 @ rest) = s2 # tl"
  proof (cases rest)
    case Nil
    then show ?thesis using split_no_sep[OF assms(3)] by simp
  next
    case (Cons r rs)
    with assms(4) have "rest = sep # rs" by simp
    then show ?thesis using split_segment[OF assms(3), of rs] by simp
  qed
  with a show ?thesis by auto
qed

lemma two_separators:
  assumes "2 \<le> length (filter (\<lambda>c. c = sep) s)"
  shows "\<exists>s0 s1 s2 rest. s = s0 @ sep # s1 @ sep # s2 @ rest
           \<and> sep \<notin> set s0 \<and> sep \<notin> set s1 \<and> sep \<notin> set s2 \<and> (rest = [] \<or> hd rest = sep)"
proof -
  from assms have "filter (\<lambda>c. c = sep) s \<noteq> []" by auto
  then have "sep \<in> set s" by (auto simp: filter_empty_conv)
  then obtain s0 t where s: "s = s0 @ sep # t" and s0: "sep \<notin> set s0"
    using split_list_first[of sep s] by blast
  from s0 have "filter (\<lambda>c. c = sep) s0 = []" by (auto simp: filter_empty_conv)
  with assms s have "filter (\<lambda>c. c = sep) t \<noteq> []" by auto
  then have "sep \<in> set t" by (auto simp: filter_empty_conv)
  then obtain s1 r where t: "t = s1 @ sep # r" and s1: "sep \<notin> set s1"
    using split_list_first[of sep t] by blast
  define s2 where "s2 = takeWhile (\<lambda>c. c \<noteq> sep) r"
  define rest where "rest = dropWhile (\<lambda>c. c \<noteq> sep) r"
  have r: "r = s2 @ rest" by (simp add: s2_def rest_def)
  have s2: "sep \<notin> set s2" unfolding s2_def by (auto dest: set_takeWhileD)
  have rest: "rest = [] \<or> hd rest = sep"
    unfolding rest_def using hd_dropWhile[of "\<lambda>c. c \<noteq> sep" r] by auto
  from s t r s0 s1 s2 rest show ?thesis by blast
qed

lemma third_part:
  "(if 2 < length parts \<and> parts ! 2 \<noteq> [] then Some (parts ! 2) else None)
     = (case drop 2 parts of [] \<Rightarrow> None | k # ks \<Rightarrow> if k = [] then None else Some k)"
proof (cases "2 < length parts")
  case True
  then have "drop 2 parts = parts ! 2 # drop 3 parts"
    using Cons_nth_drop_Suc[of 2 parts] by (simp add: numeral_3_eq_3)
  with True show ?thesis by simp
next
  case False
  then show ?thesis by simp
qed

text \<open>
  C2, as the code has it. When the platform's parser throws, both fields are null.
  Otherwise each field is computed on its own, whether or not the other is missing.
  \<open>fileKey\<close> is the third element of the pathname split at \<open>/\<close>, and null when that element
  is absent or empty: a pathname with fewer than two slashes has no third element, and a
  pathname with at least two slashes reads \<open>s0/s1/s2\<close> or \<open>s0/s1/s2/...\<close> with no slash in
  \<open>s0\<close>, \<open>s1\<close>, \<open>s2\<close>, and its third element is \<open>s2\<close> (for a pathname that begins
  with a slash \<open>s0\<close> is empty). \<open>nodeId\<close> is the value of the first
  \<open>node-id\<close> parameter with every \<open>-\<close> replaced by \<open>:\<close>, and null when there is no such
  parameter. A pathname \<open>/design/ABC123/Name\<close> with \<open>node-id=10-20\<close> gives \<open>ABC123\<close> and
  \<open>10:20\<close>.
\<close>

theorem parseFigmaUrl_fields:
  "(newURL urlStr = None \<longrightarrow> parseFigmaUrl newURL urlStr = \<lparr>fileKey = None, nodeId = None\<rparr>)
   \<and> (\<forall>u. newURL urlStr = Some u \<longrightarrow>
         (\<forall>s0 s1 s2 rest. pathname u = s0 @ CHR ''/'' # s1 @ CHR ''/'' # s2 @ rest
              \<and> CHR ''/'' \<notin> set s0 \<and> CHR ''/'' \<notin> set s1 \<and> CHR ''/'' \<notin> set s2
              \<and> (rest = [] \<or> hd rest = CHR ''/'') \<longrightarrow>
              fileKey (parseFigmaUrl newURL urlStr) = (if s2 = [] then None else Some s2))
       \<and> (length (filter (\<lambda>c. c = CHR ''/'') (pathname u)) < 2 \<longrightarrow>
              fileKey (parseFigmaUrl newURL urlStr) = None)
       \<and> (\<forall>v. searchParams_get (searchParams u) ''node-id'' = Some v \<longrightarrow>
              nodeId (parseFigmaUrl newURL urlStr) = Some (map (\<lambda>c. if c = CHR ''-'' then CHR '':'' else c) v))
       \<and> (searchParams_get (searchParams u) ''node-id'' = None \<longrightarrow>
              nodeId (parseFigmaUrl newURL urlStr) = None)
       \<and> (2 \<le> length (filter (\<lambda>c. c = CHR ''/'') (pathname u)) \<longrightarrow>
              (\<exists>s0 s1 s2 rest. pathname u = s0 @ CHR ''/'' # s1 @ CHR ''/'' # s2 @ rest
                 \<and> CHR ''/'' \<notin> set s0 \<and> CHR ''/'' \<notin> set s1 \<and> CHR ''/'' \<notin> set s2
                 \<and> (rest = [] \<or> hd rest = CHR ''/'')
                 \<and> fileKey (parseFigmaUrl newURL urlStr) = (if s2 = [] then None else Some s2)))
       \<and> fileKey (parseFigmaUrl newURL urlStr)
            = (case drop 2 (split CHR ''/'' (pathname u)) of
                 [] \<Rightarrow> None
               | k # ks \<Rightarrow> if k = [] then None else Some k)
       \<and> (pathname u = ''/design/ABC123/Name''
            \<and> searchParams_get (searchParams u) ''node-id'' = Some ''10-20'' \<longrightarrow>
              parseFigmaUrl newURL urlStr = \<lparr>fileKey = Some ''ABC123'', nodeId = Some ''10:20''\<rparr>))"
proof (intro conjI allI impI)
  assume "newURL urlStr = None"
  then show "parseFigmaUrl newURL urlStr = \<lparr>fileKey = None, nodeId = None\<rparr>"
    by (simp add: parseFigmaUrl_def)
next
  fix u s0 s1 s2 rest
  assume u: "newURL urlStr = Some u"
    and p: "pathname u = s0 @ CHR ''/'' # s1 @ CHR ''/'' # s2 @ rest
              \<and> CHR ''/'' \<notin> set s0 \<and> CHR ''/'' \<notin> set s1 \<and> CHR ''/'' \<notin> set s2
              \<and> (rest = [] \<or> hd rest = CHR ''/'')"
  from p split_third[of "CHR ''/''" s0 s1 s2 rest]
  have "2 < length (split CHR ''/'' (pathname u))" "split CHR ''/'' (pathname u) ! 2 = s2"
    by simp_all
  with u show "fileKey (parseFigmaUrl newURL urlStr) = (if s2 = [] then None else Some s2)"
    by (simp add: parseFigmaUrl_def Let_def)
next
  fix u
  assume u: "newURL urlStr = Some u"
    and "length (filter (\<lambda>c. c = CHR ''/'') (pathname u)) < 2"
  then have "\<not> 2 < length (split CHR ''/'' (pathname u))"
    by (simp add: split_length)
  with u show "fileKey (parseFigmaUrl newURL urlStr) = None"
    by (simp add: parseFigmaUrl_def Let_def)
next
  fix u v
  assume "newURL urlStr = Some u" "searchParams_get (searchParams u) ''node-id'' = Some v"
  then show "nodeId (parseFigmaUrl newURL urlStr) = Some (map (\<lambda>c. if c = CHR ''-'' then CHR '':'' else c) v)"
    by (cases v) (simp_all add: parseFigmaUrl_def Let_def replaceHyphens_def)
next
  fix u
  assume "newURL urlStr = Some u" "searchParams_get (searchParams u) ''node-id'' = None"
  then show "nodeId (parseFigmaUrl newURL urlStr) = None"
    by (simp add: parseFigmaUrl_def Let_def)
next
  fix u
  assume u: "newURL urlStr = Some u"
    and "2 \<le> length (filter (\<lambda>c. c = CHR ''/'') (pathname u))"
  from two_separators[OF this(2)] obtain s0 s1 s2 rest
    where p: "pathname u = s0 @ CHR ''/'' # s1 @ CHR ''/'' # s2 @ rest"
      and n: "CHR ''/'' \<notin> set s0" "CHR ''/'' \<notin> set s1" "CHR ''/'' \<notin> set s2"
      and r: "rest = [] \<or> hd rest = CHR ''/''"
    by blast
  from p split_third[OF n r]
  have "2 < length (split CHR ''/'' (pathname u))" "split CHR ''/'' (pathname u) ! 2 = s2"
    by simp_all
  with u have "fileKey (parseFigmaUrl newURL urlStr) = (if s2 = [] then None else Some s2)"
    by (simp add: parseFigmaUrl_def Let_def)
  with p n r show "\<exists>s0 s1 s2 rest. pathname u = s0 @ CHR ''/'' # s1 @ CHR ''/'' # s2 @ rest
                 \<and> CHR ''/'' \<notin> set s0 \<and> CHR ''/'' \<notin> set s1 \<and> CHR ''/'' \<notin> set s2
                 \<and> (rest = [] \<or> hd rest = CHR ''/'')
                 \<and> fileKey (parseFigmaUrl newURL urlStr) = (if s2 = [] then None else Some s2)"
    by blast
next
  fix u
  assume u: "newURL urlStr = Some u"
  let ?parts = "split CHR ''/'' (pathname u)"
  from u have "fileKey (parseFigmaUrl newURL urlStr)
      = (if 2 < length ?parts \<and> ?parts ! 2 \<noteq> [] then Some (?parts ! 2) else None)"
    by (simp add: parseFigmaUrl_def Let_def)
  also have "\<dots> = (case drop 2 ?parts of [] \<Rightarrow> None | k # ks \<Rightarrow> if k = [] then None else Some k)"
    by (rule third_part)
  finally show "fileKey (parseFigmaUrl newURL urlStr)
            = (case drop 2 (split CHR ''/'' (pathname u)) of
                 [] \<Rightarrow> None
               | k # ks \<Rightarrow> if k = [] then None else Some k)" .
next
  fix u
  assume "newURL urlStr = Some u"
    and "pathname u = ''/design/ABC123/Name''
            \<and> searchParams_get (searchParams u) ''node-id'' = Some ''10-20''"
  then show "parseFigmaUrl newURL urlStr = \<lparr>fileKey = Some ''ABC123'', nodeId = Some ''10:20''\<rparr>"
    by (simp add: parseFigmaUrl_def Let_def replaceHyphens_def)
qed

theorem parseFigmaUrl_fields_witness:
  "parseFigmaUrl demoNewURL ''https://www.figma.com/design/ABC123/Name?node-id=10-20''
     = \<lparr>fileKey = Some ''ABC123'', nodeId = Some ''10:20''\<rparr>
   \<and> parseFigmaUrl demoNewURL ''not a url'' = \<lparr>fileKey = None, nodeId = None\<rparr>"
proof -
  let ?s = "''https://www.figma.com/design/ABC123/Name?node-id=10-20''"
  let ?u = "\<lparr>pathname = ''/design/ABC123/Name'', searchParams = [(''node-id'', ''10-20'')]\<rparr>"
  have u: "demoNewURL ?s = Some ?u" by (simp add: demoNewURL_def)
  have p: "pathname ?u = [] @ CHR ''/'' # ''design'' @ CHR ''/'' # ''ABC123'' @ ''/Name''
      \<and> CHR ''/'' \<notin> set [] \<and> CHR ''/'' \<notin> set ''design'' \<and> CHR ''/'' \<notin> set ''ABC123''
      \<and> (''/Name'' = [] \<or> hd ''/Name'' = CHR ''/'')"
    by simp
  have q: "searchParams_get (searchParams ?u) ''node-id'' = Some ''10-20''" by simp
  have n: "demoNewURL ''not a url'' = None" by (simp add: demoNewURL_def)
  note parsed = parseFigmaUrl_fields[of demoNewURL ?s, THEN conjunct2, rule_format, OF u]
  from parsed[THEN conjunct1, rule_format, OF p]
  have k: "fileKey (parseFigmaUrl demoNewURL ?s) = Some ''ABC123''" by simp
  from parsed[THEN conjunct2, THEN conjunct2, THEN conjunct1, rule_format, OF q]
  have i: "nodeId (parseFigmaUrl demoNewURL ?s) = Some ''10:20''" by simp
  from parseFigmaUrl_fields[of demoNewURL "''not a url''", THEN conjunct1, rule_format, OF n]
  have e: "parseFigmaUrl demoNewURL ''not a url'' = \<lparr>fileKey = None, nodeId = None\<rparr>" .
  from k i have "parseFigmaUrl demoNewURL ?s = \<lparr>fileKey = Some ''ABC123'', nodeId = Some ''10:20''\<rparr>"
    by (cases "parseFigmaUrl demoNewURL ?s") simp
  with e show ?thesis by (rule conjI[rotated])
qed

text \<open>
  The claim as stated asks for both fields to be null when either piece is missing. A
  reference without a \<open>node-id\<close> parameter still yields its file key.
\<close>

theorem parseFigmaUrl_missing_nodeId_counterexample:
  "nodeId (parseFigmaUrl demoNewURL ''https://www.figma.com/design/ABC123/Name'') = None
   \<and> fileKey (parseFigmaUrl demoNewURL ''https://www.figma.com/design/ABC123/Name'') = Some ''ABC123''
   \<and> parseFigmaUrl demoNewURL ''https://www.figma.com/design/ABC123/Name'' \<noteq> \<lparr>fileKey = None, nodeId = None\<rparr>"
  by (simp add: parseFigmaUrl_def demoNewURL_def Let_def)

section \<open>Rounding to a double\<close>

lemma ilog2_bounds:
  assumes "0 < q"
  shows "2 powi ilog2 q \<le> q \<and> q < 2 powi (ilog2 q + 1)"
proof -
  obtain p d where pd: "quotient_of q = (p, d)" by (cases "quotient_of q")
  then have d: "0 < d" by (rule quotient_of_denom_pos)
  from pd have q: "q = of_int p / of_int d" by (rule quotient_of_div)
  with assms d have p: "0 < p" by (simp add: zero_less_divide_iff)
  define bp where "bp = bitlen p"
  define bd where "bd = bitlen d"
  have bp1: "1 \<le> bp" and bd1: "1 \<le> bd"
    using p d bitlen_eq_zero_iff[of p] bitlen_eq_zero_iff[of d] bitlen_nonneg[of p] bitlen_nonneg[of d]
    unfolding bp_def bd_def by linarith+
  from bitlen_bounds[OF p] have "2 ^ nat (bp - 1) \<le> p" "p < 2 ^ nat bp" unfolding bp_def by simp_all
  then have "(of_int (2 ^ nat (bp - 1)) :: rat) \<le> of_int p" "(of_int p :: rat) < of_int (2 ^ nat bp)"
    by (simp_all only: of_int_le_iff of_int_less_iff)
  then have plo: "(2::rat) powi (bp - 1) \<le> of_int p" and phi: "(of_int p :: rat) < 2 powi bp"
    using bp1 by (simp_all add: power_int_def)
  from bitlen_bounds[OF d] have "2 ^ nat (bd - 1) \<le> d" "d < 2 ^ nat bd" unfolding bd_def by simp_all
  then have "(of_int (2 ^ nat (bd - 1)) :: rat) \<le> of_int d" "(of_int d :: rat) < of_int (2 ^ nat bd)"
    by (simp_all only: of_int_le_iff of_int_less_iff)
  then have dlo: "(2::rat) powi (bd - 1) \<le> of_int d" and dhi: "(of_int d :: rat) < 2 powi bd"
    using bd1 by (simp_all add: power_int_def)
  have dpos: "(0::rat) < of_int d" using d by simp
  have ppos: "(0::rat) < of_int p" using p by simp
  have up: "q < 2 powi (bp - bd + 1)"
  proof -
    have "q < 2 powi bp / of_int d" unfolding q using phi dpos by (simp add: divide_strict_right_mono)
    also have "\<dots> \<le> 2 powi bp / 2 powi (bd - 1)"
      using dlo dpos by (intro divide_left_mono) (simp_all add: mult_pos_pos)
    also have "\<dots> = 2 powi (bp - (bd - 1))" by (simp add: power_int_diff)
    finally show ?thesis by (simp add: algebra_simps)
  qed
  have lo: "2 powi (bp - bd - 1) \<le> q"
  proof -
    have "(2::rat) powi (bp - bd - 1) = 2 powi (bp - 1) / 2 powi bd"
      by (simp add: power_int_diff[symmetric] algebra_simps)
    also have "\<dots> \<le> of_int p / 2 powi bd" using plo by (simp add: divide_right_mono)
    also have "\<dots> \<le> of_int p / of_int d"
      using dhi dpos ppos by (intro divide_left_mono) (simp_all add: mult_pos_pos)
    finally show ?thesis unfolding q .
  qed
  show ?thesis
  proof (cases "2 powi (bp - bd) \<le> q")
    case True
    then have "ilog2 q = bp - bd" by (simp add: ilog2_def pd bp_def bd_def)
    with True up show ?thesis by simp
  next
    case False
    then have "ilog2 q = bp - bd - 1" by (simp add: ilog2_def pd bp_def bd_def)
    with False lo show ?thesis by simp
  qed
qed

lemma round_half_even_error: "\<bar>of_int (round_half_even v) - v\<bar> \<le> 1 / 2"
proof -
  have "of_int \<lfloor>v\<rfloor> \<le> v" "v < of_int \<lfloor>v\<rfloor> + 1" by linarith+
  then show ?thesis unfolding round_half_even_def Let_def by (auto simp: abs_le_iff) 
qed

lemma round_half_even_nonneg: "0 \<le> v \<Longrightarrow> 0 \<le> round_half_even v"
  unfolding round_half_even_def Let_def by (auto simp: zero_le_floor intro: add_nonneg_nonneg)

lemma round_half_even_int: "round_half_even (of_int m) = m"
  by (simp add: round_half_even_def)

text \<open>The significand of a positive rational, scaled to 53 bits.\<close>

lemma significand_bounds:
  assumes "0 < q"
  shows "2 ^ 52 \<le> q / 2 powi (ilog2 q - 52) \<and> q / 2 powi (ilog2 q - 52) < 2 ^ 53"
proof -
  from ilog2_bounds[OF assms] have lo: "2 powi ilog2 q \<le> q" and hi: "q < 2 powi (ilog2 q + 1)" by simp_all
  have e: "(2::rat) powi ilog2 q = 2 ^ 52 * 2 powi (ilog2 q - 52)"
    using power_int_add[of "2::rat" 52 "ilog2 q - 52"] by simp
  have e1: "(2::rat) powi (ilog2 q + 1) = 2 ^ 53 * 2 powi (ilog2 q - 52)"
    using power_int_add[of "2::rat" 53 "ilog2 q - 52"] by (simp add: add.commute)
  have pos: "(0::rat) < 2 powi (ilog2 q - 52)" by simp
  from lo e pos have "2 ^ 52 \<le> q / 2 powi (ilog2 q - 52)" by (simp add: pos_le_divide_eq)
  moreover from hi e1 pos have "q / 2 powi (ilog2 q - 52) < 2 ^ 53" by (simp add: pos_divide_less_eq)
  ultimately show ?thesis by simp
qed

lemma roundToDouble_zero: "roundToDouble 0 = 0"
  by (simp add: roundToDouble_def)

lemma roundToDouble_pos:
  assumes "0 < q"
  shows "roundToDouble q = of_int (round_half_even (q / 2 powi (ilog2 q - 52))) * 2 powi (ilog2 q - 52)"
  using assms by (simp add: roundToDouble_def Let_def)

text \<open>The relative error of rounding is at most \<open>2^-53\<close>.\<close>

lemma roundToDouble_error:
  assumes "0 < q"
  shows "\<bar>roundToDouble q - q\<bar> \<le> q / 2 ^ 53"
proof -
  define s where "s = (2::rat) powi (ilog2 q - 52)"
  define v where "v = q / s"
  have s: "0 < s" by (simp add: s_def)
  from significand_bounds[OF assms] have v52: "2 ^ 52 \<le> v" by (simp add: v_def s_def)
  have vs: "v * s = q" using s by (simp add: v_def)
  have r: "roundToDouble q = of_int (round_half_even v) * s"
    unfolding v_def s_def by (rule roundToDouble_pos[OF assms])
  have "roundToDouble q - q = (of_int (round_half_even v) - v) * s"
    unfolding r using vs by (simp add: left_diff_distrib)
  then have "\<bar>roundToDouble q - q\<bar> = \<bar>of_int (round_half_even v) - v\<bar> * s"
    using s by (simp add: abs_mult)
  also have "\<dots> \<le> (1 / 2) * s" using round_half_even_error[of v] s by (intro mult_right_mono) simp_all
  also have "\<dots> \<le> (v / 2 ^ 53) * s" using v52 s by (intro mult_right_mono) simp_all
  also have "\<dots> = q / 2 ^ 53" by (simp add: vs[symmetric])
  finally show ?thesis .
qed

text \<open>An integer below \<open>2^53\<close> times a power of two is a double.\<close>

lemma roundToDouble_exact:
  assumes "0 < m" "m < 2 ^ 53"
  shows "roundToDouble (of_int m * 2 powi e) = of_int m * 2 powi e"
proof -
  define q where "q = (of_int m :: rat) * 2 powi e"
  have q: "0 < q" using assms by (simp add: q_def)
  define t where "t = ilog2 q - 52"
  from significand_bounds[OF q] have b: "2 ^ 52 \<le> q / 2 powi t" "q / 2 powi t < 2 ^ 53" by (simp_all add: t_def)
  have qt: "q / 2 powi t = of_int m * 2 powi (e - t)" by (simp add: q_def power_int_diff)
  have "0 \<le> e - t"
  proof (rule ccontr)
    assume "\<not> 0 \<le> e - t"
    then have "e - t \<le> -1" by simp
    then have "(2::rat) powi (e - t) \<le> 2 powi (-1)" by (intro power_int_increasing) simp_all
    then have "(2::rat) powi (e - t) \<le> 1 / 2" by (simp add: power_int_minus)
    moreover have "(of_int m :: rat) < 2 ^ 53" using assms(2) by (metis of_int_less_iff of_int_numeral of_int_power)
    moreover have "(0::rat) < of_int m" using assms by simp
    ultimately have "of_int m * 2 powi (e - t) < (2 ^ 53 :: rat) * (1 / 2)"
      by (intro mult_less_le_imp_less) simp_all
    with b(1) qt show False by simp
  qed
  then obtain n where n: "e - t = int n" using nonneg_int_cases by blast 
  have "q / 2 powi t = of_int (m * 2 ^ n)" unfolding qt n by simp
  then have "round_half_even (q / 2 powi t) = m * 2 ^ n" by (simp only: round_half_even_int)
  then have "roundToDouble q = of_int (m * 2 ^ n) * 2 powi t"
    using roundToDouble_pos[OF q] by (simp add: t_def)
  also have "\<dots> = of_int m * (2 powi (e - t) * 2 powi t)" by (simp add: n)
  also have "2 powi (e - t) * 2 powi t = (2::rat) powi e" by (simp add: power_int_add[symmetric])
  finally show ?thesis by (simp add: q_def)
qed

lemma roundToDouble_nat:
  assumes "n < 2 ^ 53"
  shows "roundToDouble (of_nat n) = of_nat n"
proof (cases "n = 0")
  case True
  then show ?thesis by (simp add: roundToDouble_zero)
next
  case False
  have "int n < 2 ^ 53" using assms by (metis of_nat_less_iff of_nat_numeral of_nat_power) 
  with False roundToDouble_exact[of "int n" 0] show ?thesis by simp
qed

lemma roundToDouble_nonneg:
  assumes "0 \<le> q"
  shows "0 \<le> roundToDouble q"
proof (cases "q = 0")
  case True
  then show ?thesis by (simp add: roundToDouble_zero)
next
  case False
  with assms have q: "0 < q" by simp
  then have "0 \<le> q / 2 powi (ilog2 q - 52)" by simp
  from round_half_even_nonneg[OF this] show ?thesis
    unfolding roundToDouble_pos[OF q] by (intro mult_nonneg_nonneg) simp_all
qed

section \<open>Properties of the block scan\<close>

declare floodFill.simps [simp del]
declare showNat.simps [simp del]

lemma scanPixel_counts:
  "scanPixel config screenshot figma width y x (d, t) =
     (if pixelInRange screenshot width y x
      then (if pixelDiffers config screenshot figma width y x then d + 1 else d, t + 1)
      else (d, t))"
  by (simp add: scanPixel_def pixelInRange_def pixelDiffers_def Let_def not_le)

lemma scanRow_counts:
  "fold (\<lambda>x counters. scanPixel config screenshot figma width y x counters) xs (d, t) =
     (d + length (filter (\<lambda>x. pixelInRange screenshot width y x \<and> pixelDiffers config screenshot figma width y x) xs),
      t + length (filter (\<lambda>x. pixelInRange screenshot width y x) xs))"
  by (induction xs arbitrary: d t) (simp_all add: scanPixel_counts)

lemma scanRows_counts:
  "fold (\<lambda>y counters. fold (\<lambda>x counters. scanPixel config screenshot figma width y x counters) xs counters) ys (d, t) =
     (d + sum_list (map (\<lambda>y. length (filter (\<lambda>x. pixelInRange screenshot width y x
                                   \<and> pixelDiffers config screenshot figma width y x) xs)) ys),
      t + sum_list (map (\<lambda>y. length (filter (\<lambda>x. pixelInRange screenshot width y x) xs)) ys))"
  by (induction ys arbitrary: d t) (simp_all add: scanRow_counts)

lemma scanBlock_counts:
  "scanBlock config screenshot figma width height bx by =
     (sum_list (map (\<lambda>y. length (filter (\<lambda>x. pixelInRange screenshot width y x
                                   \<and> pixelDiffers config screenshot figma width y x)
                              [bx * BLOCK_SIZE..<min (bx * BLOCK_SIZE + BLOCK_SIZE) width]))
                 [by * BLOCK_SIZE..<min (by * BLOCK_SIZE + BLOCK_SIZE) height]),
      sum_list (map (\<lambda>y. length (filter (\<lambda>x. pixelInRange screenshot width y x)
                              [bx * BLOCK_SIZE..<min (bx * BLOCK_SIZE + BLOCK_SIZE) width]))
                 [by * BLOCK_SIZE..<min (by * BLOCK_SIZE + BLOCK_SIZE) height]))"
  unfolding scanBlock_def Let_def by (simp add: scanRows_counts)

text \<open>Flags set by a loop of conditional updates.\<close>

lemma fold_flag_update_length:
  "length (fold (\<lambda>j flags. if P j then flags[g j := True] else flags) js flags) = length flags"
  by (induction js arbitrary: flags) simp_all

lemma fold_flag_update_nth:
  "i < length flags \<Longrightarrow>
   fold (\<lambda>j flags. if P j then flags[g j := True] else flags) js flags ! i
     = (flags ! i \<or> (\<exists>j \<in> set js. P j \<and> g j = i))"
proof (induction js arbitrary: flags)
  case Nil
  then show ?case by simp
next
  case (Cons j js)
  have "i < length (if P j then flags[g j := True] else flags)" using Cons.prems by simp
  from Cons.IH[OF this] Cons.prems show ?case
    by (cases "g j = i") (auto simp: nth_list_update)
qed

lemma fold_fold_flag_update_length:
  "length (fold (\<lambda>k flags. fold (\<lambda>j flags. if P j k then flags[g j k := True] else flags) js flags) ks flags)
     = length flags"
  by (induction ks arbitrary: flags) (simp_all add: fold_flag_update_length)

lemma fold_fold_flag_update_nth:
  "i < length flags \<Longrightarrow>
   fold (\<lambda>k flags. fold (\<lambda>j flags. if P j k then flags[g j k := True] else flags) js flags) ks flags ! i
     = (flags ! i \<or> (\<exists>k \<in> set ks. \<exists>j \<in> set js. P j k \<and> g j k = i))"
proof (induction ks arbitrary: flags)
  case Nil
  then show ?case by simp
next
  case (Cons k ks)
  have len: "i < length (fold (\<lambda>j flags. if P j k then flags[g j k := True] else flags) js flags)"
    using Cons.prems by (simp add: fold_flag_update_length)
  show ?case
    using Cons.IH[OF len] fold_flag_update_nth[OF Cons.prems, of "\<lambda>j. P j k" "\<lambda>j. g j k" js]
    by auto
qed

lemma markActiveBlocks_length:
  "length (markActiveBlocks config screenshot figma width height) = blocksAcross width * blocksAcross height"
  unfolding markActiveBlocks_def Let_def by (simp add: fold_fold_flag_update_length)

lemma markActiveBlocks_nth:
  assumes "i < blocksAcross width * blocksAcross height"
  shows "markActiveBlocks config screenshot figma width height ! i =
           blockIsActive config screenshot figma width height (i mod blocksAcross width) (i div blocksAcross width)"
proof -
  let ?bX = "blocksAcross width"
  let ?bY = "blocksAcross height"
  let ?act = "\<lambda>bx by. blockIsActive config screenshot figma width height bx by"
  have pos: "0 < ?bX" using assms by (cases "?bX = 0") simp_all
  have "markActiveBlocks config screenshot figma width height ! i =
          (\<exists>by \<in> set [0..<?bY]. \<exists>bx \<in> set [0..<?bX]. ?act bx by \<and> by * ?bX + bx = i)"
    unfolding markActiveBlocks_def Let_def
    using fold_fold_flag_update_nth[of i "replicate (?bX * ?bY) False" ?act "\<lambda>bx by. by * ?bX + bx" "[0..<?bX]" "[0..<?bY]"]
      assms by simp
  also have "\<dots> = ?act (i mod ?bX) (i div ?bX)"
  proof
    assume "\<exists>by \<in> set [0..<?bY]. \<exists>bx \<in> set [0..<?bX]. ?act bx by \<and> by * ?bX + bx = i"
    then obtain "by" bx where b: "bx < ?bX" "?act bx by" "by * ?bX + bx = i" by auto
    then have "i mod ?bX = bx" "i div ?bX = by" by auto
    with b show "?act (i mod ?bX) (i div ?bX)" by simp
  next
    assume a: "?act (i mod ?bX) (i div ?bX)"
    have "i div ?bX < ?bY" using assms pos by (simp add: less_mult_imp_div_less mult.commute)
    moreover have "i mod ?bX < ?bX" using pos by simp
    moreover have "(i div ?bX) * ?bX + i mod ?bX = i" by simp
    ultimately have "i div ?bX \<in> set [0..<?bY] \<and> i mod ?bX \<in> set [0..<?bX]
        \<and> ?act (i mod ?bX) (i div ?bX) \<and> (i div ?bX) * ?bX + i mod ?bX = i"
      using a by simp
    then show "\<exists>by \<in> set [0..<?bY]. \<exists>bx \<in> set [0..<?bX]. ?act bx by \<and> by * ?bX + bx = i"
      by blast
  qed
  finally show ?thesis .
qed

lemma markActiveBlocks_eq:
  "markActiveBlocks config screenshot figma width height =
     map (\<lambda>i. blockIsActive config screenshot figma width height (i mod blocksAcross width) (i div blocksAcross width))
       [0..<blocksAcross width * blocksAcross height]"
  by (rule nth_equalityI) (simp_all add: markActiveBlocks_length markActiveBlocks_nth)

section \<open>Properties of issue generation and ranking\<close>

lemma sevScore_order: "sevScore Low < sevScore Medium \<and> sevScore Medium < sevScore High"
  by (simp add: sevScore_def)

lemma sevScore_inj: "sevScore a = sevScore b \<longleftrightarrow> a = b"
  by (cases a; cases b) (simp_all add: sevScore_def)

lemma compareIssues_le: "compareIssues a b \<le> 0 \<longleftrightarrow> ranksBefore a b"
proof (cases "severity a = severity b")
  case True
  then show ?thesis by (simp add: compareIssues_def ranksBefore_def)
next
  case False
  then have "sevScore (severity a) \<noteq> sevScore (severity b)" by (simp add: sevScore_inj)
  with False show ?thesis by (auto simp: compareIssues_def ranksBefore_def)
qed

lemma ranksBefore_total:
  assumes "\<not> ranksBefore a b"
  shows "ranksBefore b a"
proof (cases "severity a = severity b")
  case True
  with assms show ?thesis by (auto simp: ranksBefore_def)
next
  case False
  then have "sevScore (severity a) \<noteq> sevScore (severity b)" by (simp add: sevScore_inj)
  with assms show ?thesis by (auto simp: ranksBefore_def)
qed

lemma ranksBefore_trans: "ranksBefore a b \<Longrightarrow> ranksBefore b c \<Longrightarrow> ranksBefore a c"
  by (auto simp: ranksBefore_def)

lemma set_insertIssue: "set (insertIssue a bs) = insert a (set bs)"
  by (induction bs) auto

lemma length_insertIssue: "length (insertIssue a bs) = Suc (length bs)"
  by (induction bs) auto

lemma sorted_insertIssue:
  "sorted_wrt ranksBefore bs \<Longrightarrow> sorted_wrt ranksBefore (insertIssue a bs)"
proof (induction bs)
  case Nil
  then show ?case by simp
next
  case (Cons b bs)
  show ?case
  proof (cases "compareIssues a b \<le> 0")
    case True
    then have ab: "ranksBefore a b" by (simp add: compareIssues_le)
    with Cons.prems have "\<forall>c \<in> set bs. ranksBefore a c" by (auto intro: ranksBefore_trans)
    with True ab Cons.prems show ?thesis by simp
  next
    case False
    then have "ranksBefore b a" using ranksBefore_total by (simp add: compareIssues_le)
    with False Cons show ?thesis by (auto simp: set_insertIssue)
  qed
qed

lemma set_sortIssues: "set (sortIssues xs) = set xs"
  unfolding sortIssues_def by (induction xs) (simp_all add: set_insertIssue)

lemma length_sortIssues: "length (sortIssues xs) = length xs"
  unfolding sortIssues_def by (induction xs) (simp_all add: length_insertIssue)

lemma sorted_sortIssues: "sorted_wrt ranksBefore (sortIssues xs)"
  unfolding sortIssues_def by (induction xs) (simp_all add: sorted_insertIssue)

lemma sorted_wrt_take: "sorted_wrt R xs \<Longrightarrow> sorted_wrt R (take n xs)"
proof (induction xs arbitrary: n)
  case Nil
  then show ?case by simp
next
  case (Cons x xs)
  then show ?case by (cases n) (auto dest: in_set_takeD)
qed

text \<open>What the callback pushes, when it pushes.\<close>

lemma issueOfCluster_Some:
  assumes "issueOfCluster config width height ic = Some i"
  shows "0 \<le> region_x (region i) \<and> 0 \<le> region_y (region i)
       \<and> region_x (region i) + region_width (region i) \<le> int width
       \<and> region_y (region i) + region_height (region i) \<le> int height
       \<and> int (minArea config) \<le> regionArea i
       \<and> severity i = (if 50000 < regionArea i then High else if 10000 < regionArea i then Medium else Low)
       \<and> issue_type i = (if regionArea i < 1000 then Color else Layout)"
proof -
  obtain index c where ic: "ic = (index, c)" by (cases ic)
  from assms have bc: "\<not> blockCount c < 1"
    unfolding issueOfCluster_def ic by (auto split: if_splits)
  from assms bc obtain a b e f where
    n: "minX c = Num a" "minY c = Num b" "maxX c = Num e" "maxY c = Num f"
    unfolding issueOfCluster_def ic by (auto split: jsnum.splits)
  define finalX where "finalX = max 0 (a * int BLOCK_SIZE)"
  define finalY where "finalY = max 0 (b * int BLOCK_SIZE)"
  define finalW where "finalW = min ((e - a + 1) * int BLOCK_SIZE) (int width - finalX)"
  define finalH where "finalH = min ((f - b + 1) * int BLOCK_SIZE) (int height - finalY)"
  from assms bc have ar: "\<not> finalW * finalH < int (minArea config)"
    unfolding issueOfCluster_def ic finalX_def finalY_def finalW_def finalH_def
    by (auto simp: n Let_def split: if_splits)
  from assms bc ar have i: "i = \<lparr>issue_id = ''diff-cluster-'' @ showNat index,
        issue_type = (if finalW * finalH < 1000 then Color else Layout),
        message = ''Difference detected in '' @ showInt finalW @ ''x'' @ showInt finalH @ '' region'',
        severity = (if 50000 < finalW * finalH then High else if 10000 < finalW * finalH then Medium else Low),
        region = \<lparr>region_x = finalX, region_y = finalY, region_width = finalW, region_height = finalH\<rparr>\<rparr>"
    unfolding issueOfCluster_def ic finalX_def finalY_def finalW_def finalH_def
    by (simp add: n Let_def)
  have "0 \<le> finalX" "0 \<le> finalY" "finalX + finalW \<le> int width" "finalY + finalH \<le> int height"
    unfolding finalX_def finalY_def finalW_def finalH_def by simp_all
  with ar show ?thesis unfolding i regionArea_def by simp
qed

lemma generateIssues_member:
  "i \<in> set (generateIssues config width height clusters) \<Longrightarrow>
   \<exists>ic. issueOfCluster config width height ic = Some i"
proof -
  assume "i \<in> set (generateIssues config width height clusters)"
  then obtain ic where "issueOfCluster config width height ic \<noteq> None"
    "i = the (issueOfCluster config width height ic)"
    unfolding generateIssues_def List.map_filter_def by auto
  then have "issueOfCluster config width height ic = Some i" by auto
  then show ?thesis by blast
qed

lemma analyze_member:
  assumes "i \<in> set (analyzeImageDifferences screenshot figma width height sensitivity)"
  shows "\<exists>ic. issueOfCluster (sensitivityConfig sensitivity) width height ic = Some i"
proof -
  from assms have "i \<in> set (sortIssues (generateIssues (sensitivityConfig sensitivity) width height
      (findClusters (blocksAcross width) (blocksAcross height)
         (markActiveBlocks (sensitivityConfig sensitivity) screenshot figma width height))))"
    unfolding analyzeImageDifferences_def Let_def by (rule in_set_takeD)
  then have "i \<in> set (generateIssues (sensitivityConfig sensitivity) width height
      (findClusters (blocksAcross width) (blocksAcross height)
         (markActiveBlocks (sensitivityConfig sensitivity) screenshot figma width height)))"
    by (simp add: set_sortIssues)
  then show ?thesis by (rule generateIssues_member)
qed

text \<open>
  C6. For all inputs the returned list has at most 20 issues, is sorted descending by
  severity rank (\<open>High > Medium > Low\<close>) and, within one severity, by region area, and every
  region satisfies \<open>x \<ge> 0\<close>, \<open>y \<ge> 0\<close>, \<open>x + width \<le> imageWidth\<close> and \<open>y + height \<le> imageHeight\<close>.
\<close>

theorem analyze_capped_ranked_bounded:
  "length (analyzeImageDifferences screenshot figma width height sensitivity) \<le> 20
   \<and> sevScore Low < sevScore Medium \<and> sevScore Medium < sevScore High
   \<and> sorted_wrt (\<lambda>a b. sevScore (severity b) < sevScore (severity a)
                       \<or> (severity a = severity b \<and> regionArea b \<le> regionArea a))
        (analyzeImageDifferences screenshot figma width height sensitivity)
   \<and> (\<forall>i \<in> set (analyzeImageDifferences screenshot figma width height sensitivity).
         0 \<le> region_x (region i) \<and> 0 \<le> region_y (region i)
         \<and> region_x (region i) + region_width (region i) \<le> int width
         \<and> region_y (region i) + region_height (region i) \<le> int height)"
proof (intro conjI ballI)
  show "length (analyzeImageDifferences screenshot figma width height sensitivity) \<le> 20"
    unfolding analyzeImageDifferences_def Let_def by simp
  show "sevScore Low < sevScore Medium" "sevScore Medium < sevScore High"
    using sevScore_order by simp_all
  have "sorted_wrt ranksBefore (analyzeImageDifferences screenshot figma width height sensitivity)"
    unfolding analyzeImageDifferences_def Let_def by (intro sorted_wrt_take sorted_sortIssues)
  then show "sorted_wrt (\<lambda>a b. sevScore (severity b) < sevScore (severity a)
                       \<or> (severity a = severity b \<and> regionArea b \<le> regionArea a))
        (analyzeImageDifferences screenshot figma width height sensitivity)"
    unfolding ranksBefore_def .
next
  fix i
  assume "i \<in> set (analyzeImageDifferences screenshot figma width height sensitivity)"
  from analyze_member[OF this] obtain ic
    where "issueOfCluster (sensitivityConfig sensitivity) width height ic = Some i" by blast
  from issueOfCluster_Some[OF this]
  show "0 \<le> region_x (region i)" "0 \<le> region_y (region i)"
    "region_x (region i) + region_width (region i) \<le> int width"
    "region_y (region i) + region_height (region i) \<le> int height"
    by simp_all
qed

text \<open>
  C7. Every returned issue, with \<open>A\<close> the area of its clipped region: severity is \<open>High\<close> if
  \<open>A > 50000\<close>, \<open>Medium\<close> if \<open>10000 < A \<le> 50000\<close>, \<open>Low\<close> otherwise; type is \<open>Color\<close> if
  \<open>A < 1000\<close> and \<open>Layout\<close> otherwise.
\<close>

theorem analyze_classification:
  "\<forall>i \<in> set (analyzeImageDifferences screenshot figma width height sensitivity).
     (50000 < regionArea i \<longrightarrow> severity i = High)
     \<and> (10000 < regionArea i \<and> regionArea i \<le> 50000 \<longrightarrow> severity i = Medium)
     \<and> (regionArea i \<le> 10000 \<longrightarrow> severity i = Low)
     \<and> (regionArea i < 1000 \<longrightarrow> issue_type i = Color)
     \<and> (1000 \<le> regionArea i \<longrightarrow> issue_type i = Layout)"
proof
  fix i
  assume "i \<in> set (analyzeImageDifferences screenshot figma width height sensitivity)"
  from analyze_member[OF this] obtain ic
    where "issueOfCluster (sensitivityConfig sensitivity) width height ic = Some i" by blast
  from issueOfCluster_Some[OF this]
  show "(50000 < regionArea i \<longrightarrow> severity i = High)
     \<and> (10000 < regionArea i \<and> regionArea i \<le> 50000 \<longrightarrow> severity i = Medium)
     \<and> (regionArea i \<le> 10000 \<longrightarrow> severity i = Low)
     \<and> (regionArea i < 1000 \<longrightarrow> issue_type i = Color)
     \<and> (1000 \<le> regionArea i \<longrightarrow> issue_type i = Layout)"
    by simp
qed

section \<open>The corner scenario\<close>

lemma concat_uniform_length:
  "\<forall>xs \<in> set xss. length xs = k \<Longrightarrow> length (concat xss) = k * length xss"
  by (induction xss) simp_all

lemma concat_uniform_nth:
  "\<forall>xs \<in> set xss. length xs = k \<Longrightarrow> i < length xss \<Longrightarrow> c < k \<Longrightarrow>
   concat xss ! (i * k + c) = xss ! i ! c"
proof (induction xss arbitrary: i)
  case Nil
  then show ?case by simp
next
  case (Cons xs xss)
  show ?case
  proof (cases i)
    case 0
    with Cons.prems show ?thesis by (simp add: nth_append)
  next
    case (Suc j)
    with Cons.prems have "concat xss ! (j * k + c) = xss ! j ! c"
      by (intro Cons.IH) simp_all
    with Suc Cons.prems show ?thesis by (simp add: nth_append)
  qed
qed

lemma rgbaImage_length: "length (png_data (rgbaImage w h colour)) = 4 * w * h"
proof -
  have "length (png_data (rgbaImage w h colour)) = 4 * length [0..<w * h]"
    unfolding rgbaImage_def
    by (simp only: png.simps, subst concat_uniform_length[where k = 4])
       (auto split: prod.splits)
  then show ?thesis by simp
qed

lemma rgbaImage_nth:
  assumes "x < w" "y < h" "c < 4"
  shows "png_data (rgbaImage w h colour) ! ((y * w + x) * 4 + c) =
           (case colour x y of (r, g, b, a) \<Rightarrow> [r, g, b, a]) ! c"
proof -
  have "y * w + x < (y + 1) * w" using assms(1) by simp
  also have "\<dots> \<le> h * w" using assms(2) by (intro mult_le_mono1) simp
  finally have lt: "y * w + x < w * h" by (simp add: mult.commute)
  have m: "(y * w + x) mod w = x" "(y * w + x) div w = y" using assms(1) by simp_all
  let ?xss = "map (\<lambda>i. case colour (i mod w) (i div w) of (r, g, b, a) \<Rightarrow> [r, g, b, a]) [0..<w * h]"
  have "concat ?xss ! ((y * w + x) * 4 + c) = ?xss ! (y * w + x) ! c"
    using lt assms(3) by (intro concat_uniform_nth) (auto split: prod.splits)
  also have "\<dots> = (case colour x y of (r, g, b, a) \<Rightarrow> [r, g, b, a]) ! c"
    using lt assms(1) by simp
  finally show ?thesis by (simp add: rgbaImage_def)
qed

lemma scenario_wellFormed: "wellFormed solidImage \<and> wellFormed (cornerImage right bottom)"
  by (simp add: wellFormed_def solidImage_def cornerImage_def rgbaImage_length) (simp add: rgbaImage_def)

lemma scenario_inRange:
  "x < 100 \<Longrightarrow> y < 100 \<Longrightarrow>
   pixelInRange (cornerImage right bottom) 100 y x \<and> pixelInRange solidImage 100 y x"
proof -
  assume a: "x < 100" "y < 100"
  then have "y * 100 + x < 100 * 100" by simp
  then show ?thesis
    unfolding pixelInRange_def cornerImage_def solidImage_def by (simp add: rgbaImage_length)
qed

lemma roundToDouble_255: "roundToDouble 255 = 255"
  using roundToDouble_nat[of 255] by simp

lemma scenario_differs:
  assumes "x < 100" "y < 100"
  shows "pixelDiffers (sensitivityConfig 3) (cornerImage right bottom) solidImage 100 y x
           \<longleftrightarrow> inCorner right bottom x y"
    and "pixelDiffers (sensitivityConfig 3) solidImage (cornerImage right bottom) 100 y x
           \<longleftrightarrow> inCorner right bottom x y"
proof -
  define i where "i = (y * 100 + x) * 4"
  have len: "length (png_data (cornerImage right bottom)) = 40000" "length (png_data solidImage) = 40000"
    unfolding cornerImage_def solidImage_def by (simp_all add: rgbaImage_length)
  have idx: "i + 2 < 40000" using assms by (simp add: i_def)
  have s: "png_data solidImage ! (i + c) = [0, 0, 0, 255] ! c" if "c < 4" for c
    unfolding solidImage_def i_def using rgbaImage_nth[OF assms(1) assms(2) that, of "\<lambda>x y. black"]
    by (simp add: black_def)
  have c: "png_data (cornerImage right bottom) ! (i + c) =
      (if inCorner right bottom x y then [255, 255, 255, 255] else [0, 0, 0, 255]) ! c"
    if "c < 4" for c
    unfolding cornerImage_def i_def
    using rgbaImage_nth[OF assms(1) assms(2) that, of "\<lambda>x y. if inCorner right bottom x y then white else black"]
    by (simp add: black_def white_def)
  have s0: "png_data solidImage ! i = 0" using s[of 0] by simp
  have s1: "png_data solidImage ! Suc i = 0" using s[of 1] by simp
  have s2: "png_data solidImage ! Suc (Suc i) = 0" using s[of 2] by simp
  have c0: "png_data (cornerImage right bottom) ! i = (if inCorner right bottom x y then 255 else 0)"
    using c[of 0] by simp
  have c1: "png_data (cornerImage right bottom) ! Suc i = (if inCorner right bottom x y then 255 else 0)"
    using c[of 1] by simp
  have c2: "png_data (cornerImage right bottom) ! Suc (Suc i) = (if inCorner right bottom x y then 255 else 0)"
    using c[of 2] by simp
  have "fst (scanPixel (sensitivityConfig 3) (cornerImage right bottom) solidImage 100 y x (0, 0)) = 1
          \<longleftrightarrow> inCorner right bottom x y"
    unfolding scanPixel_def Let_def channelDiff_def readByte_def i_def[symmetric]
    using idx
    by (simp add: len s0 s1 s2 c0 c1 c2 sensitivityConfig_def js_div_def roundToDouble_255 roundToDouble_zero)
  then show "pixelDiffers (sensitivityConfig 3) (cornerImage right bottom) solidImage 100 y x
           \<longleftrightarrow> inCorner right bottom x y"
    unfolding pixelDiffers_def .
  have "fst (scanPixel (sensitivityConfig 3) solidImage (cornerImage right bottom) 100 y x (0, 0)) = 1
          \<longleftrightarrow> inCorner right bottom x y"
    unfolding scanPixel_def Let_def channelDiff_def readByte_def i_def[symmetric]
    using idx
    by (simp add: len s0 s1 s2 c0 c1 c2 sensitivityConfig_def js_div_def roundToDouble_255 roundToDouble_zero)
  then show "pixelDiffers (sensitivityConfig 3) solidImage (cornerImage right bottom) 100 y x
           \<longleftrightarrow> inCorner right bottom x y"
    unfolding pixelDiffers_def .
qed

lemma scanBlock_cong:
  assumes "\<And>x y. x < width \<Longrightarrow> y < height \<Longrightarrow>
             pixelInRange s width y x = pixelInRange s' width y x
             \<and> pixelDiffers config s f width y x = pixelDiffers config s' f' width y x"
  shows "scanBlock config s f width height bx by = scanBlock config s' f' width height bx by"
proof -
  have "length (filter (\<lambda>x. pixelInRange s width y x \<and> pixelDiffers config s f width y x)
            [bx * BLOCK_SIZE..<min (bx * BLOCK_SIZE + BLOCK_SIZE) width])
      = length (filter (\<lambda>x. pixelInRange s' width y x \<and> pixelDiffers config s' f' width y x)
            [bx * BLOCK_SIZE..<min (bx * BLOCK_SIZE + BLOCK_SIZE) width])"
    and "length (filter (\<lambda>x. pixelInRange s width y x)
            [bx * BLOCK_SIZE..<min (bx * BLOCK_SIZE + BLOCK_SIZE) width])
      = length (filter (\<lambda>x. pixelInRange s' width y x)
            [bx * BLOCK_SIZE..<min (bx * BLOCK_SIZE + BLOCK_SIZE) width])"
    if "y \<in> set [by * BLOCK_SIZE..<min (by * BLOCK_SIZE + BLOCK_SIZE) height]" for y
  proof -
    from that have y: "y < height" by simp
    show "length (filter (\<lambda>x. pixelInRange s width y x \<and> pixelDiffers config s f width y x)
            [bx * BLOCK_SIZE..<min (bx * BLOCK_SIZE + BLOCK_SIZE) width])
      = length (filter (\<lambda>x. pixelInRange s' width y x \<and> pixelDiffers config s' f' width y x)
            [bx * BLOCK_SIZE..<min (bx * BLOCK_SIZE + BLOCK_SIZE) width])"
      by (rule arg_cong[where f = length], rule filter_cong[OF refl]) (use assms y in simp)
    show "length (filter (\<lambda>x. pixelInRange s width y x)
            [bx * BLOCK_SIZE..<min (bx * BLOCK_SIZE + BLOCK_SIZE) width])
      = length (filter (\<lambda>x. pixelInRange s' width y x)
            [bx * BLOCK_SIZE..<min (bx * BLOCK_SIZE + BLOCK_SIZE) width])"
      by (rule arg_cong[where f = length], rule filter_cong[OF refl]) (use assms y in simp)
  qed
  note eq = this
  have d: "map (\<lambda>y. length (filter (\<lambda>x. pixelInRange s width y x \<and> pixelDiffers config s f width y x)
                 [bx * BLOCK_SIZE..<min (bx * BLOCK_SIZE + BLOCK_SIZE) width]))
             [by * BLOCK_SIZE..<min (by * BLOCK_SIZE + BLOCK_SIZE) height]
         = map (\<lambda>y. length (filter (\<lambda>x. pixelInRange s' width y x \<and> pixelDiffers config s' f' width y x)
                 [bx * BLOCK_SIZE..<min (bx * BLOCK_SIZE + BLOCK_SIZE) width]))
             [by * BLOCK_SIZE..<min (by * BLOCK_SIZE + BLOCK_SIZE) height]"
    by (rule map_cong[OF refl]) (rule eq(1))
  have t: "map (\<lambda>y. length (filter (\<lambda>x. pixelInRange s width y x)
                 [bx * BLOCK_SIZE..<min (bx * BLOCK_SIZE + BLOCK_SIZE) width]))
             [by * BLOCK_SIZE..<min (by * BLOCK_SIZE + BLOCK_SIZE) height]
         = map (\<lambda>y. length (filter (\<lambda>x. pixelInRange s' width y x)
                 [bx * BLOCK_SIZE..<min (bx * BLOCK_SIZE + BLOCK_SIZE) width]))
             [by * BLOCK_SIZE..<min (by * BLOCK_SIZE + BLOCK_SIZE) height]"
    by (rule map_cong[OF refl]) (rule eq(2))
  show ?thesis unfolding scanBlock_counts d t ..
qed

lemma markActiveBlocks_cong:
  assumes "\<And>x y. x < width \<Longrightarrow> y < height \<Longrightarrow>
             pixelInRange s width y x = pixelInRange s' width y x
             \<and> pixelDiffers config s f width y x = pixelDiffers config s' f' width y x"
  shows "markActiveBlocks config s f width height = markActiveBlocks config s' f' width height"
proof -
  have sb: "scanBlock config s f width height bx by = scanBlock config s' f' width height bx by" for bx "by"
    by (rule scanBlock_cong) (rule assms)
  show ?thesis unfolding markActiveBlocks_eq blockIsActive_def sb ..
qed

text \<open>Counting in a block of pixels.\<close>

lemma count_product:
  "sum_list (map (\<lambda>y. length (filter (\<lambda>x. P x \<and> Q y) xs)) ys) = length (filter P xs) * length (filter Q ys)"
  by (induction ys) simp_all

lemma count_below: "length (filter (\<lambda>x. x < c) [a..<b]) = min b c - min a c"
  by (induction b) auto

lemma count_from: "length (filter (\<lambda>x. c \<le> x) [a..<b]) = max b c - max a c"
  by (induction b) auto

text \<open>Level 3 of the table, and its block threshold: the double nearest to 0.05.\<close>

lemma blockThreshold_3_bounds:
  "0 \<le> blockThreshold (sensitivityConfig 3) \<and> blockThreshold (sensitivityConfig 3) < 1 / 4"
proof -
  have t: "blockThreshold (sensitivityConfig 3) = roundToDouble (1 / 20)"
    by (simp add: sensitivityConfig_def)
  have "\<bar>roundToDouble (1 / 20) - 1 / 20\<bar> \<le> (1 / 20) / 2 ^ 53"
    by (rule roundToDouble_error) simp
  moreover have "roundToDouble (1 / 20) - 1 / 20 \<le> \<bar>roundToDouble (1 / 20) - 1 / 20\<bar>" by (rule abs_ge_self)
  ultimately have "roundToDouble (1 / 20) \<le> 1 / 20 + (1 / 20) / 2 ^ 53" by linarith
  also have "\<dots> < (1 / 4 :: rat)" by simp
  finally have "roundToDouble (1 / 20) < 1 / 4" .
  moreover have "0 \<le> roundToDouble (1 / 20)" by (rule roundToDouble_nonneg) simp
  ultimately show ?thesis unfolding t by simp
qed

lemma roundToDouble_half: "roundToDouble (1 / 2) = 1 / 2"
  using roundToDouble_exact[of 1 "-1"] by (simp add: power_int_minus)

lemma roundToDouble_quarter: "roundToDouble (1 / 4) = 1 / 4"
  using roundToDouble_exact[of 1 "-2"] by (simp add: power_int_minus)

lemma roundToDouble_one: "roundToDouble 1 = 1"
  using roundToDouble_nat[of 1] by simp

lemma blocksAcross_100: "blocksAcross 100 = 5"
proof -
  have "roundToDouble 5 = 5" using roundToDouble_nat[of 5] by simp
  then show ?thesis by (simp add: blocksAcross_def js_div_def BLOCK_SIZE_def)
qed

lemma scenario_count:
  assumes "b < 5"
  shows "length (filter (\<lambda>x. if far then 70 \<le> x else x < 30) [b * 20..<b * 20 + 20])
           = (if reaches far b then (if b = 1 \<or> b = 3 then 10 else 20) else 0)"
proof -
  from assms consider "b = 0" | "b = 1" | "b = 2" | "b = 3" | "b = 4" by linarith
  then show ?thesis
    by cases (cases far; simp add: reaches_def count_below count_from)+
qed

lemma scenario_scanBlock:
  assumes "bx < 5" "by < 5"
  shows "scanBlock (sensitivityConfig 3) (cornerImage right bottom) solidImage 100 100 bx by =
           ((if reaches right bx then (if bx = 1 \<or> bx = 3 then 10 else 20) else 0)
            * (if reaches bottom by then (if by = 1 \<or> by = 3 then 10 else 20) else 0), 400)"
proof -
  have ex: "min (bx * BLOCK_SIZE + BLOCK_SIZE) 100 = bx * 20 + 20"
    and ey: "min (by * BLOCK_SIZE + BLOCK_SIZE) 100 = by * 20 + 20"
    using assms by (simp_all add: BLOCK_SIZE_def)
  have row: "filter (\<lambda>x. pixelInRange (cornerImage right bottom) 100 y x
                 \<and> pixelDiffers (sensitivityConfig 3) (cornerImage right bottom) solidImage 100 y x)
               [bx * 20..<bx * 20 + 20]
           = filter (\<lambda>x. (if right then 70 \<le> x else x < 30) \<and> (if bottom then 70 \<le> y else y < 30))
               [bx * 20..<bx * 20 + 20]"
    and tot: "filter (\<lambda>x. pixelInRange (cornerImage right bottom) 100 y x) [bx * 20..<bx * 20 + 20]
           = [bx * 20..<bx * 20 + 20]"
    if "y \<in> set [by * 20..<by * 20 + 20]" for y
  proof -
    from that assms(2) have y: "y < 100" by simp
    have x: "x < 100" if "x \<in> set [bx * 20..<bx * 20 + 20]" for x using that assms(1) by simp
    show "filter (\<lambda>x. pixelInRange (cornerImage right bottom) 100 y x
                 \<and> pixelDiffers (sensitivityConfig 3) (cornerImage right bottom) solidImage 100 y x)
               [bx * 20..<bx * 20 + 20]
           = filter (\<lambda>x. (if right then 70 \<le> x else x < 30) \<and> (if bottom then 70 \<le> y else y < 30))
               [bx * 20..<bx * 20 + 20]"
      by (rule filter_cong[OF refl])
         (simp only: scenario_inRange[OF x y] scenario_differs(1)[OF x y] inCorner_def simp_thms)
    show "filter (\<lambda>x. pixelInRange (cornerImage right bottom) 100 y x) [bx * 20..<bx * 20 + 20]
           = [bx * 20..<bx * 20 + 20]"
      by (rule filter_True) (simp add: scenario_inRange[OF x y])
  qed
  have d: "map (\<lambda>y. length (filter (\<lambda>x. pixelInRange (cornerImage right bottom) 100 y x
                 \<and> pixelDiffers (sensitivityConfig 3) (cornerImage right bottom) solidImage 100 y x)
               [bx * 20..<bx * 20 + 20])) [by * 20..<by * 20 + 20]
         = map (\<lambda>y. length (filter (\<lambda>x. (if right then 70 \<le> x else x < 30) \<and> (if bottom then 70 \<le> y else y < 30))
               [bx * 20..<bx * 20 + 20])) [by * 20..<by * 20 + 20]"
    by (rule map_cong[OF refl]) (simp only: row)
  have t: "map (\<lambda>y. length (filter (\<lambda>x. pixelInRange (cornerImage right bottom) 100 y x) [bx * 20..<bx * 20 + 20]))
             [by * 20..<by * 20 + 20]
         = map (\<lambda>y. 20) [by * 20..<by * 20 + 20]"
    by (rule map_cong[OF refl]) (simp only: tot, simp)
  have "scanBlock (sensitivityConfig 3) (cornerImage right bottom) solidImage 100 100 bx by =
      (length (filter (\<lambda>x. if right then 70 \<le> x else x < 30) [bx * 20..<bx * 20 + 20])
       * length (filter (\<lambda>y. if bottom then 70 \<le> y else y < 30) [by * 20..<by * 20 + 20]), 400)"
    unfolding scanBlock_counts ex ey
    unfolding BLOCK_SIZE_def d t count_product
    by (simp add: sum_list_triv)
  then show ?thesis unfolding scenario_count[OF assms(1)] scenario_count[OF assms(2)] .
qed

lemma scenario_blockIsActive:
  assumes "bx < 5" "by < 5"
  shows "blockIsActive (sensitivityConfig 3) (cornerImage right bottom) solidImage 100 100 bx by
           \<longleftrightarrow> reaches right bx \<and> reaches bottom by"
proof -
  note b = blockThreshold_3_bounds
  have q: "(100 / 400 :: rat) = 1 / 4" "(200 / 400 :: rat) = 1 / 2" by simp_all
  show ?thesis
    unfolding blockIsActive_def scenario_scanBlock[OF assms] js_div_def
    using b
    by (auto simp: roundToDouble_zero roundToDouble_one roundToDouble_half roundToDouble_quarter)
qed

lemma upt_25: "[0..<25] = [0,1,2,3,4,5,6,7,8,9,10,11,12,13,14,15,16,17,18,19,20,21,22,23,24]"
  by (simp add: upt_rec)

lemma scenario_activeBlocks:
  "markActiveBlocks (sensitivityConfig 3) (cornerImage right bottom) solidImage 100 100
     = map (\<lambda>i. reaches right (i mod 5) \<and> reaches bottom (i div 5)) [0..<25]"
proof -
  have "blockIsActive (sensitivityConfig 3) (cornerImage right bottom) solidImage 100 100 (i mod 5) (i div 5)
          = (reaches right (i mod 5) \<and> reaches bottom (i div 5))"
    if "i \<in> set [0..<25]" for i
  proof -
    from that have "i mod 5 < 5" "i div 5 < 5" by simp_all
    then show ?thesis by (rule scenario_blockIsActive)
  qed
  then show ?thesis
    unfolding markActiveBlocks_eq blocksAcross_100 by (simp cong: map_cong)
qed

lemma scenario_clusters:
  "findClusters 5 5 (map (\<lambda>i. reaches right (i mod 5) \<and> reaches bottom (i div 5)) [0..<25])
     = [\<lparr>minX = Num (if right then 3 else 0), minY = Num (if bottom then 3 else 0),
         maxX = Num (if right then 4 else 1), maxY = Num (if bottom then 4 else 1), blockCount = 4\<rparr>]"
  unfolding findClusters_def
  by (cases right; cases bottom)
     (simp_all add: upt_25 reaches_def seedCluster_def flagAt_def floodFill.simps visitNeighbor_def
        neighbors_def absorbBlock_def emptyCluster_def Let_def)

lemma showNat_0: "showNat 0 = ''0''"
  by code_simp

lemma showInt_40: "showInt 40 = ''40''"
  by code_simp

lemma scenario_issues:
  "analyzeImageDifferences (cornerImage right bottom) solidImage 100 100 3 = [scenarioIssue right bottom]"
  unfolding analyzeImageDifferences_def Let_def blocksAcross_100 scenario_activeBlocks scenario_clusters
  by (cases right; cases bottom)
     (simp_all add: generateIssues_def issueOfCluster_def sensitivityConfig_def BLOCK_SIZE_def Let_def
        showNat_0 showInt_40 sortIssues_def scenarioIssue_def)

lemma scenario_issues_swapped:
  "analyzeImageDifferences solidImage (cornerImage right bottom) 100 100 3 = [scenarioIssue right bottom]"
proof -
  have "markActiveBlocks (sensitivityConfig 3) solidImage (cornerImage right bottom) 100 100
      = markActiveBlocks (sensitivityConfig 3) (cornerImage right bottom) solidImage 100 100"
    by (rule markActiveBlocks_cong) (simp add: scenario_inRange scenario_differs)
  then show ?thesis
    using scenario_issues[of right bottom] unfolding analyzeImageDifferences_def Let_def by simp
qed

text \<open>
  C1, as the code has it. For the two solid 100 x 100 images that differ only in a 30 x 30
  corner block at maximum contrast, at sensitivity 3 and in either argument order, the
  analysis returns exactly one issue. Its region is the corner rounded up to the 20-pixel
  grid, 40 x 40 pixels at the corner's side of the image; the area that is classified is
  the area of this region, 1600 pixels, so the severity is \<open>Low\<close> and the type is \<open>Layout\<close>
  (\<open>Color\<close> needs an area below 1000).
\<close>

theorem corner_scenario:
  "analyzeImageDifferences (cornerImage right bottom) solidImage 100 100 3 = [scenarioIssue right bottom]
   \<and> analyzeImageDifferences solidImage (cornerImage right bottom) 100 100 3 = [scenarioIssue right bottom]
   \<and> region (scenarioIssue right bottom)
        = \<lparr>region_x = (if right then 60 else 0), region_y = (if bottom then 60 else 0),
           region_width = 40, region_height = 40\<rparr>
   \<and> regionArea (scenarioIssue right bottom) = 1600
   \<and> severity (scenarioIssue right bottom) = Low
   \<and> issue_type (scenarioIssue right bottom) = Layout"
  by (simp add: scenario_issues scenario_issues_swapped) (simp add: scenarioIssue_def regionArea_def)

theorem corner_scenario_witness:
  "analyzeImageDifferences (cornerImage False False) solidImage 100 100 3 =
     [\<lparr>issue_id = ''diff-cluster-0'', issue_type = Layout,
       message = ''Difference detected in 40x40 region'', severity = Low,
       region = \<lparr>region_x = 0, region_y = 0, region_width = 40, region_height = 40\<rparr>\<rparr>]
   \<and> regionArea (scenarioIssue False False) = 1600"
  using corner_scenario[of False False] by (simp add: scenarioIssue_def)

text \<open>The claim as stated asks for one issue of type \<open>Color\<close>; there is none.\<close>

theorem corner_scenario_type_counterexample:
  "\<not> (\<exists>i. analyzeImageDifferences (cornerImage False False) solidImage 100 100 3 = [i]
          \<and> severity i = Low \<and> issue_type i = Color)"
  by (simp add: scenario_issues scenarioIssue_def)

theorem analyze_capped_ranked_bounded_witness:
  "analyzeImageDifferences (cornerImage True False) solidImage 100 100 3 = [scenarioIssue True False]
   \<and> length (analyzeImageDifferences (cornerImage True False) solidImage 100 100 3) \<le> 20
   \<and> 0 \<le> region_x (region (scenarioIssue True False))
   \<and> 0 \<le> region_y (region (scenarioIssue True False))
   \<and> region_x (region (scenarioIssue True False)) + region_width (region (scenarioIssue True False)) \<le> 100
   \<and> region_y (region (scenarioIssue True False)) + region_height (region (scenarioIssue True False)) \<le> 100"
  using analyze_capped_ranked_bounded[of "cornerImage True False" solidImage 100 100 3]
    scenario_issues[of True False]
  by simp

theorem analyze_classification_witness:
  "analyzeImageDifferences (cornerImage False True) solidImage 100 100 3 = [scenarioIssue False True]
   \<and> regionArea (scenarioIssue False True) = 1600
   \<and> severity (scenarioIssue False True) = Low
   \<and> issue_type (scenarioIssue False True) = Layout"
proof -
  have a: "regionArea (scenarioIssue False True) = 1600"
    by (simp add: scenarioIssue_def regionArea_def)
  from analyze_classification[of "cornerImage False True" solidImage 100 100 3]
    scenario_issues[of False True] a
  show ?thesis by simp
qed

section \<open>Identical inputs\<close>

lemma pixelDiffers_same: "\<not> pixelDiffers config s s width y x"
proof (cases "length (png_data s) \<le> (y * width + x) * 4 + 2")
  case True
  then show ?thesis by (simp add: pixelDiffers_def scanPixel_def Let_def)
next
  case False
  define i where "i = (y * width + x) * 4"
  from False have r: "i < length (png_data s)" "Suc i < length (png_data s)" "Suc (Suc i) < length (png_data s)"
    and nr: "\<not> length (png_data s) \<le> i + 2"
    by (simp_all add: i_def)
  have "fst (scanPixel config s s width y x (0, 0)) = 0"
    unfolding scanPixel_def Let_def channelDiff_def readByte_def i_def[symmetric]
    using r nr by (simp add: js_div_def roundToDouble_zero)
  then show ?thesis by (simp add: pixelDiffers_def)
qed

lemma scanBlock_same: "fst (scanBlock config s s width height bx by) = 0"
  unfolding scanBlock_counts by (simp add: pixelDiffers_same)

lemma sensitivityConfig_threshold_nonneg: "0 \<le> blockThreshold (sensitivityConfig sensitivity)"
  unfolding sensitivityConfig_def by (simp add: roundToDouble_nonneg)

lemma blockIsActive_same:
  "\<not> blockIsActive (sensitivityConfig sensitivity) s s width height bx by"
proof -
  obtain d t where dt: "scanBlock (sensitivityConfig sensitivity) s s width height bx by = (d, t)"
    by (cases "scanBlock (sensitivityConfig sensitivity) s s width height bx by")
  with scanBlock_same[of "sensitivityConfig sensitivity" s width height bx "by"] have "d = 0" by simp
  with dt sensitivityConfig_threshold_nonneg[of sensitivity] show ?thesis
    by (simp add: blockIsActive_def js_div_def roundToDouble_zero not_less)
qed

lemma findClusters_inactive:
  assumes "\<And>i. \<not> flagAt activeBlocks i"
  shows "findClusters blocksX blocksY activeBlocks = []"
proof -
  have "fold (seedCluster blocksX blocksY activeBlocks) is st = st" for "is" st
    by (induction "is" arbitrary: st) (simp_all add: seedCluster_def assms split: prod.splits)
  then show ?thesis by (simp add: findClusters_def)
qed

lemma analyze_same: "analyzeImageDifferences s s width height sensitivity = []"
proof -
  have "\<not> flagAt (markActiveBlocks (sensitivityConfig sensitivity) s s width height) i" for i
    by (simp add: flagAt_def markActiveBlocks_length markActiveBlocks_nth blockIsActive_same)
  then have "findClusters (blocksAcross width) (blocksAcross height)
      (markActiveBlocks (sensitivityConfig sensitivity) s s width height) = []"
    by (rule findClusters_inactive)
  then show ?thesis
    by (simp add: analyzeImageDifferences_def Let_def generateIssues_def sortIssues_def)
qed

section \<open>The alpha channel\<close>

lemma scanPixel_offAlpha:
  assumes "agreeOffAlpha (png_data s) (png_data s')" "agreeOffAlpha (png_data f) (png_data f')"
  shows "scanPixel config s f width y x counters = scanPixel config s' f' width y x counters"
proof -
  define i where "i = (y * width + x) * 4"
  have m: "i mod 4 \<noteq> 3" "Suc i mod 4 \<noteq> 3" "Suc (Suc i) mod 4 \<noteq> 3"
    unfolding i_def by presburger+
  from assms have len: "length (png_data s') = length (png_data s)" "length (png_data f') = length (png_data f)"
    by (simp_all add: agreeOffAlpha_def)
  have rs: "png_data s ! j = png_data s' ! j" if "j < length (png_data s)" "j mod 4 \<noteq> 3" for j
    using assms(1) that by (simp add: agreeOffAlpha_def)
  have rf: "readByte (png_data f) j = readByte (png_data f') j" if "j mod 4 \<noteq> 3" for j
    using assms(2) that by (simp add: agreeOffAlpha_def readByte_def)
  obtain d t where c: "counters = (d, t)" by (cases counters)
  show ?thesis
  proof (cases "length (png_data s) \<le> i + 2")
    case True
    then show ?thesis unfolding scanPixel_def Let_def i_def[symmetric] by (simp add: len c)
  next
    case False
    then have r: "i < length (png_data s)" "Suc i < length (png_data s)" "Suc (Suc i) < length (png_data s)"
      by simp_all
    have cd: "channelDiff (png_data s) (png_data f) j = channelDiff (png_data s') (png_data f') j"
      if "j < length (png_data s)" "j mod 4 \<noteq> 3" for j
      unfolding channelDiff_def rf[OF that(2)] rs[OF that] ..
    have c0: "channelDiff (png_data s) (png_data f) i = channelDiff (png_data s') (png_data f') i"
      by (rule cd[OF r(1) m(1)])
    have c1: "channelDiff (png_data s) (png_data f) (i + 1) = channelDiff (png_data s') (png_data f') (i + 1)"
      using cd[OF r(2) m(2)] by simp
    have c2: "channelDiff (png_data s) (png_data f) (i + 2) = channelDiff (png_data s') (png_data f') (i + 2)"
      using cd[OF r(3) m(3)] by simp
    show ?thesis unfolding scanPixel_def Let_def i_def[symmetric] c0 c1 c2 len ..
  qed
qed

lemma analyze_offAlpha:
  assumes "agreeOffAlpha (png_data s) (png_data s')" "agreeOffAlpha (png_data f) (png_data f')"
  shows "analyzeImageDifferences s f width height sensitivity
           = analyzeImageDifferences s' f' width height sensitivity"
proof -
  have "markActiveBlocks (sensitivityConfig sensitivity) s f width height
      = markActiveBlocks (sensitivityConfig sensitivity) s' f' width height"
  proof (rule markActiveBlocks_cong)
    fix x y
    have "length (png_data s) = length (png_data s')" using assms(1) by (simp add: agreeOffAlpha_def)
    then show "pixelInRange s width y x = pixelInRange s' width y x
      \<and> pixelDiffers (sensitivityConfig sensitivity) s f width y x
        = pixelDiffers (sensitivityConfig sensitivity) s' f' width y x"
      unfolding pixelInRange_def pixelDiffers_def scanPixel_offAlpha[OF assms] by simp
  qed
  then show ?thesis unfolding analyzeImageDifferences_def Let_def by simp
qed

section \<open>Properties of resampling\<close>

lemma div4_cases: "i div 4 = k \<longleftrightarrow> i = k * 4 \<or> i = k * 4 + 1 \<or> i = k * 4 + 2 \<or> i = k * 4 + (3::nat)"
  by presburger

lemma copyPixel_data:
  "png_data (copyPixel png targetWidth scaleX scaleY y x resized)
      = (png_data resized)[(y * targetWidth + x) * 4 := copiedByte png scaleX scaleY y x 0,
           (y * targetWidth + x) * 4 + 1 := copiedByte png scaleX scaleY y x 1,
           (y * targetWidth + x) * 4 + 2 := copiedByte png scaleX scaleY y x 2,
           (y * targetWidth + x) * 4 + 3 := copiedByte png scaleX scaleY y x 3]"
  unfolding copyPixel_def Let_def storeByte_def copiedByte_def by simp

lemma quad_update_nth:
  assumes "i < length buf"
  shows "buf[k * 4 := v 0, k * 4 + 1 := v 1, k * 4 + 2 := v 2, k * 4 + 3 := v (3::nat)] ! i
           = (if i div 4 = k then v (i mod 4) else buf ! i)"
proof (cases "i div 4 = k")
  case False
  then have "i \<noteq> k * 4" "i \<noteq> k * 4 + 1" "i \<noteq> k * 4 + 2" "i \<noteq> k * 4 + 3"
    by (simp_all add: div4_cases)
  with False show ?thesis by simp
next
  case True
  then consider "i = k * 4" | "i = k * 4 + 1" | "i = k * 4 + 2" | "i = k * 4 + 3"
    by (auto simp: div4_cases)
  then show ?thesis
  proof cases
    case 1
    then have "i mod 4 = 0" by simp
    with 1 assms True show ?thesis by simp
  next
    case 2
    then have "i mod 4 = 1" by presburger
    with 2 assms True show ?thesis by simp
  next
    case 3
    then have "i mod 4 = 2" by presburger
    with 3 assms True show ?thesis by simp
  next
    case 4
    then have "i mod 4 = 3" by presburger
    with 4 assms True show ?thesis by simp
  qed
qed

lemma copyPixel_nth:
  assumes "i < length (png_data resized)"
  shows "png_data (copyPixel png targetWidth scaleX scaleY y x resized) ! i =
           (if i div 4 = y * targetWidth + x then copiedByte png scaleX scaleY y x (i mod 4)
            else png_data resized ! i)"
  unfolding copyPixel_data by (rule quad_update_nth[OF assms])

lemma copyPixel_fields:
  "png_width (copyPixel png targetWidth scaleX scaleY y x resized) = png_width resized"
  "png_height (copyPixel png targetWidth scaleX scaleY y x resized) = png_height resized"
  "length (png_data (copyPixel png targetWidth scaleX scaleY y x resized)) = length (png_data resized)"
  by (simp_all add: copyPixel_def Let_def storeByte_def)

lemma copyRow_fields:
  "png_width (fold (copyPixel png targetWidth scaleX scaleY y) xs resized) = png_width resized"
  "png_height (fold (copyPixel png targetWidth scaleX scaleY y) xs resized) = png_height resized"
  "length (png_data (fold (copyPixel png targetWidth scaleX scaleY y) xs resized)) = length (png_data resized)"
  by (induction xs arbitrary: resized) (simp_all add: copyPixel_fields)

lemma copyRow_nth:
  assumes "i < length (png_data resized)" "n \<le> targetWidth"
  shows "png_data (fold (copyPixel png targetWidth scaleX scaleY y) [0..<n] resized) ! i =
           (if y * targetWidth \<le> i div 4 \<and> i div 4 < y * targetWidth + n
            then copiedByte png scaleX scaleY y (i div 4 - y * targetWidth) (i mod 4)
            else png_data resized ! i)"
  using assms(2)
proof (induction n)
  case 0
  then show ?case by auto
next
  case (Suc n)
  let ?R = "fold (copyPixel png targetWidth scaleX scaleY y) [0..<n] resized"
  have len: "i < length (png_data ?R)" using assms(1) by (simp add: copyRow_fields)
  from Suc have IH: "png_data ?R ! i =
      (if y * targetWidth \<le> i div 4 \<and> i div 4 < y * targetWidth + n
       then copiedByte png scaleX scaleY y (i div 4 - y * targetWidth) (i mod 4)
       else png_data resized ! i)" by simp
  show ?case
    using copyPixel_nth[OF len, where png=png and targetWidth=targetWidth and scaleX=scaleX
        and scaleY=scaleY and y=y and x=n] IH
    by (auto simp: less_Suc_eq)
qed

lemma copyRows_fields:
  "png_width (fold (\<lambda>y resized. fold (copyPixel png targetWidth scaleX scaleY y) xs resized) ys resized)
     = png_width resized"
  "png_height (fold (\<lambda>y resized. fold (copyPixel png targetWidth scaleX scaleY y) xs resized) ys resized)
     = png_height resized"
  "length (png_data (fold (\<lambda>y resized. fold (copyPixel png targetWidth scaleX scaleY y) xs resized) ys resized))
     = length (png_data resized)"
  by (induction ys arbitrary: resized) (simp_all add: copyRow_fields)

lemma copyRows_nth:
  assumes "i < length (png_data resized)"
  shows "png_data (fold (\<lambda>y resized. fold (copyPixel png targetWidth scaleX scaleY y) [0..<targetWidth] resized)
                     [0..<m] resized) ! i =
           (if i div 4 < m * targetWidth
            then copiedByte png scaleX scaleY (i div 4 div targetWidth) (i div 4 mod targetWidth) (i mod 4)
            else png_data resized ! i)"
proof (induction m)
  case 0
  then show ?case by simp
next
  case (Suc m)
  let ?R = "fold (\<lambda>y resized. fold (copyPixel png targetWidth scaleX scaleY y) [0..<targetWidth] resized)
              [0..<m] resized"
  have len: "i < length (png_data ?R)" using assms by (simp add: copyRows_fields)
  have row: "m * targetWidth \<le> i div 4 \<and> i div 4 < m * targetWidth + targetWidth \<Longrightarrow>
      i div 4 div targetWidth = m \<and> i div 4 mod targetWidth = i div 4 - m * targetWidth"
  proof -
    assume a: "m * targetWidth \<le> i div 4 \<and> i div 4 < m * targetWidth + targetWidth"
    then obtain r where r: "i div 4 = m * targetWidth + r" "r < targetWidth"
      by (metis add_diff_inverse_nat add_less_cancel_left not_less)
    then show ?thesis by simp
  qed
  show ?case
    using copyRow_nth[OF len order_refl, where png=png and scaleX=scaleX and scaleY=scaleY and y=m]
      Suc.IH row
    by (auto simp: not_le)
qed

text \<open>The result of \<open>resizeImage\<close> when the dimensions differ.\<close>

lemma resizeImage_fields:
  assumes "\<not> (png_width png = targetWidth \<and> png_height png = targetHeight)"
  shows "png_width (resizeImage png targetWidth targetHeight) = targetWidth"
    and "png_height (resizeImage png targetWidth targetHeight) = targetHeight"
    and "length (png_data (resizeImage png targetWidth targetHeight)) = 4 * targetWidth * targetHeight"
proof -
  have r: "resizeImage png targetWidth targetHeight =
      fold (\<lambda>y resized. fold (copyPixel png targetWidth (js_div (of_nat (png_width png)) (of_nat targetWidth))
               (js_div (of_nat (png_height png)) (of_nat targetHeight)) y) [0..<targetWidth] resized)
        [0..<targetHeight] (newPNG targetWidth targetHeight)"
    unfolding resizeImage_def Let_def if_not_P[OF assms] ..
  show "png_width (resizeImage png targetWidth targetHeight) = targetWidth"
    "png_height (resizeImage png targetWidth targetHeight) = targetHeight"
    "length (png_data (resizeImage png targetWidth targetHeight)) = 4 * targetWidth * targetHeight"
    unfolding r by (simp_all add: copyRows_fields newPNG_def)
qed

lemma resizeImage_nth:
  assumes "\<not> (png_width png = targetWidth \<and> png_height png = targetHeight)"
    and "x < targetWidth" "y < targetHeight" "c < 4"
  shows "png_data (resizeImage png targetWidth targetHeight) ! ((y * targetWidth + x) * 4 + c) =
           copiedByte png (js_div (of_nat (png_width png)) (of_nat targetWidth))
             (js_div (of_nat (png_height png)) (of_nat targetHeight)) y x c"
proof -
  define i where "i = (y * targetWidth + x) * 4 + c"
  define sx where "sx = js_div (of_nat (png_width png)) (of_nat targetWidth)"
  define sy where "sy = js_div (of_nat (png_height png)) (of_nat targetHeight)"
  have "y * targetWidth + x < (y + 1) * targetWidth" using assms(2) by simp
  also have "\<dots> \<le> targetHeight * targetWidth" using assms(3) by (intro mult_le_mono1) simp
  finally have k: "y * targetWidth + x < targetHeight * targetWidth" .
  then have "(y * targetWidth + x + 1) * 4 \<le> (targetHeight * targetWidth) * 4"
    by (intro mult_le_mono1) simp
  then have "i < (targetHeight * targetWidth) * 4" using assms(4) unfolding i_def by simp
  also have "\<dots> = 4 * targetWidth * targetHeight" by (simp add: mult_ac)
  finally have i: "i < length (png_data (newPNG targetWidth targetHeight))" by (simp add: newPNG_def)
  have "(k * 4 + c) div 4 = k \<and> (k * 4 + c) mod 4 = c" for k :: nat using assms(4) by simp
  from this[of "y * targetWidth + x"]
  have d: "i div 4 = y * targetWidth + x" "i mod 4 = c" unfolding i_def by blast+
  have m: "(y * targetWidth + x) div targetWidth = y" "(y * targetWidth + x) mod targetWidth = x"
    using assms(2) by simp_all
  have r: "resizeImage png targetWidth targetHeight =
      fold (\<lambda>y resized. fold (copyPixel png targetWidth sx sy y) [0..<targetWidth] resized)
        [0..<targetHeight] (newPNG targetWidth targetHeight)"
    unfolding resizeImage_def Let_def if_not_P[OF assms(1)] sx_def sy_def ..
  have "png_data (resizeImage png targetWidth targetHeight) ! i = copiedByte png sx sy y x c"
    unfolding r
    using copyRows_nth[OF i, where png=png and targetWidth=targetWidth and scaleX=sx and scaleY=sy
        and m=targetHeight] k assms(2)
    by (simp add: d m)
  then show ?thesis unfolding i_def sx_def sy_def .
qed

lemma resizeImage_same:
  "png_width png = targetWidth \<Longrightarrow> png_height png = targetHeight \<Longrightarrow>
   resizeImage png targetWidth targetHeight = png"
  by (simp add: resizeImage_def)

lemma resizeImage_dims:
  assumes "wellFormed png"
  shows "length (png_data (resizeImage png targetWidth targetHeight)) = 4 * targetWidth * targetHeight"
proof (cases "png_width png = targetWidth \<and> png_height png = targetHeight")
  case True
  then have "resizeImage png targetWidth targetHeight = png" by (simp add: resizeImage_same)
  with True assms show ?thesis by (simp add: wellFormed_def)
next
  case False
  then show ?thesis by (rule resizeImage_fields(3))
qed

text \<open>
  The source coordinate stays inside the source. With \<open>u = 2^-53\<close> the product
  \<open>x * scale\<close> is at most \<open>x * (srcDim / dstDim) * (1 + u)^2\<close>, and \<open>x \<le> dstDim - 1\<close>; this
  is below \<open>srcDim\<close> as long as \<open>(dstDim - 1) * (2 * u + u^2) < 1\<close>, which holds for every
  \<open>dstDim \<le> 2^52\<close> (a PNG dimension is below \<open>2^31\<close>).
\<close>

lemma roundToDouble_upper:
  assumes "0 \<le> q"
  shows "roundToDouble q \<le> q * (1 + 1 / 2 ^ 53)"
proof (cases "q = 0")
  case True
  then show ?thesis by (simp add: roundToDouble_zero)
next
  case False
  with assms have q: "0 < q" by simp
  have "roundToDouble q - q \<le> \<bar>roundToDouble q - q\<bar>" by (rule abs_ge_self)
  also have "\<dots> \<le> q / 2 ^ 53" by (rule roundToDouble_error[OF q])
  finally have "roundToDouble q \<le> q + q / 2 ^ 53" by simp
  also have "\<dots> = q * (1 + 1 / 2 ^ 53)" by (simp add: distrib_left)
  finally show ?thesis .
qed

lemma srcCoord_bound:
  assumes "0 < srcDim" "0 < dstDim" "dstDim \<le> 2 ^ 52" "x < dstDim"
  shows "srcCoord (js_div (of_nat srcDim) (of_nat dstDim)) x < srcDim"
proof -
  define u :: rat where "u = 1 / 2 ^ 53"
  define S :: rat where "S = of_nat srcDim"
  define T :: rat where "T = of_nat dstDim"
  define X :: rat where "X = of_nat x"
  have S: "0 < S" and T: "0 < T" and X: "0 \<le> X" using assms by (simp_all add: S_def T_def X_def)
  have XT: "X \<le> T - 1" using assms(4) unfolding X_def T_def
    by (metis Suc_leI of_nat_Suc of_nat_le_iff le_diff_eq add.commute)
  have T52: "T \<le> 2 ^ 52" using assms(3) unfolding T_def
    by (metis of_nat_le_iff of_nat_numeral of_nat_power)
  have u: "0 < u" by (simp add: u_def)
  define r where "r = js_div S T"
  have r0: "0 \<le> r" unfolding r_def js_div_def using S T by (intro roundToDouble_nonneg) simp
  have r1: "r \<le> (S / T) * (1 + u)" unfolding r_def js_div_def u_def
    using S T by (intro roundToDouble_upper) simp
  have p0: "0 \<le> X * r" using X r0 by simp
  have "js_mul X r \<le> (X * r) * (1 + u)" unfolding js_mul_def u_def
    by (rule roundToDouble_upper[OF p0])
  also have "\<dots> \<le> (X * ((S / T) * (1 + u))) * (1 + u)"
    using r1 X u by (intro mult_right_mono mult_left_mono) simp_all
  also have "\<dots> = S * (X * (1 + u) * (1 + u) / T)" by simp
  also have "\<dots> < S * 1"
  proof (rule mult_strict_left_mono[OF _ S])
    have "(T - 1) * (2 * u + u * u) \<le> (2 ^ 52 - 1) * (2 * u + u * u)"
      using T52 u by (intro mult_right_mono) simp_all
    also have "\<dots> < 1" by (simp add: u_def)
    finally have g: "(T - 1) * (2 * u + u * u) < 1" .
    have "X * (1 + u) * (1 + u) \<le> (T - 1) * (1 + u) * (1 + u)"
      using XT u by (intro mult_right_mono) simp_all
    also have "\<dots> = (T - 1) + (T - 1) * (2 * u + u * u)" by (simp add: algebra_simps)
    also have "\<dots> < T" using g by simp
    finally have "X * (1 + u) * (1 + u) < T" .
    then show "X * (1 + u) * (1 + u) / T < 1" using T by (simp add: divide_less_eq)
  qed
  finally have "js_mul X r < S" by simp
  then have "\<lfloor>js_mul X r\<rfloor> < int srcDim" unfolding S_def by (simp add: floor_less_iff)
  then show ?thesis unfolding srcCoord_def r_def S_def T_def X_def using assms(1) by simp
qed

lemma srcIdx_in_range:
  assumes "wellFormed png" "srcX < png_width png" "srcY < png_height png" "c < 4"
  shows "(srcY * png_width png + srcX) * 4 + c < length (png_data png)"
proof -
  have "srcY * png_width png + srcX + 1 \<le> (srcY + 1) * png_width png" using assms(2) by simp
  also have "\<dots> \<le> png_height png * png_width png" using assms(3) by (intro mult_le_mono1) simp
  finally have "(srcY * png_width png + srcX + 1) * 4 \<le> (png_height png * png_width png) * 4"
    by (intro mult_le_mono1)
  then have "(srcY * png_width png + srcX) * 4 + c < (png_height png * png_width png) * 4"
    using assms(4) by simp
  also have "\<dots> = length (png_data png)" using assms(1) by (simp add: wellFormed_def mult_ac)
  finally show ?thesis .
qed



text \<open>
  C5, as the code has it. Resampling to the image's own dimensions returns the image.
  Otherwise the result has the target dimensions and, for a well-formed source and every
  destination pixel \<open>(x, y)\<close>, each of the four channels is the byte of the source pixel
  \<open>(srcX, srcY)\<close>, unchanged, where \<open>srcX = floor(x * scaleX)\<close> and \<open>scaleX = srcWidth /
  dstWidth\<close> are computed in double precision: the quotient is rounded to a double, and so
  is the product (likewise \<open>srcY\<close>).
\<close>

theorem resize_nearest_neighbour:
  "resizeImage png (png_width png) (png_height png) = png
   \<and> (wellFormed png \<and> 1 \<le> png_width png \<and> 1 \<le> png_height png
      \<and> \<not> (png_width png = targetWidth \<and> png_height png = targetHeight)
      \<and> targetWidth \<le> 2 ^ 52 \<and> targetHeight \<le> 2 ^ 52
      \<and> x < targetWidth \<and> y < targetHeight \<and> c < 4 \<longrightarrow>
        png_width (resizeImage png targetWidth targetHeight) = targetWidth
      \<and> png_height (resizeImage png targetWidth targetHeight) = targetHeight
      \<and> length (png_data (resizeImage png targetWidth targetHeight)) = 4 * targetWidth * targetHeight
      \<and> (let srcX = nat \<lfloor>js_mul (of_nat x) (js_div (of_nat (png_width png)) (of_nat targetWidth))\<rfloor>;
              srcY = nat \<lfloor>js_mul (of_nat y) (js_div (of_nat (png_height png)) (of_nat targetHeight))\<rfloor>
          in srcX < png_width png \<and> srcY < png_height png
             \<and> png_data (resizeImage png targetWidth targetHeight) ! ((y * targetWidth + x) * 4 + c)
                 = png_data png ! ((srcY * png_width png + srcX) * 4 + c)))"
proof (intro conjI impI)
  show "resizeImage png (png_width png) (png_height png) = png" by (simp add: resizeImage_same)
next
  assume a: "wellFormed png \<and> 1 \<le> png_width png \<and> 1 \<le> png_height png
      \<and> \<not> (png_width png = targetWidth \<and> png_height png = targetHeight)
      \<and> targetWidth \<le> 2 ^ 52 \<and> targetHeight \<le> 2 ^ 52
      \<and> x < targetWidth \<and> y < targetHeight \<and> c < 4"
  then have ne: "\<not> (png_width png = targetWidth \<and> png_height png = targetHeight)" by blast
  from a have wf: "wellFormed png" and x: "x < targetWidth" and y: "y < targetHeight" and c: "c < 4"
    by blast+
  show "png_width (resizeImage png targetWidth targetHeight) = targetWidth"
    "png_height (resizeImage png targetWidth targetHeight) = targetHeight"
    "length (png_data (resizeImage png targetWidth targetHeight)) = 4 * targetWidth * targetHeight"
    by (rule resizeImage_fields[OF ne])+
  define srcX where "srcX = srcCoord (js_div (of_nat (png_width png)) (of_nat targetWidth)) x"
  define srcY where "srcY = srcCoord (js_div (of_nat (png_height png)) (of_nat targetHeight)) y"
  have sx: "srcX < png_width png" unfolding srcX_def using a by (intro srcCoord_bound) simp_all
  have sy: "srcY < png_height png" unfolding srcY_def using a by (intro srcCoord_bound) simp_all
  have r: "readByte (png_data png) ((srcY * png_width png + srcX) * 4 + c)
      = Some (png_data png ! ((srcY * png_width png + srcX) * 4 + c))"
    using srcIdx_in_range[OF wf sx sy c] by (simp add: readByte_def)
  have "png_data (resizeImage png targetWidth targetHeight) ! ((y * targetWidth + x) * 4 + c)
      = png_data png ! ((srcY * png_width png + srcX) * 4 + c)"
    unfolding resizeImage_nth[OF ne x y c] copiedByte_def srcX_def[symmetric] srcY_def[symmetric] r
    by simp
  with sx sy show "let srcX = nat \<lfloor>js_mul (of_nat x) (js_div (of_nat (png_width png)) (of_nat targetWidth))\<rfloor>;
              srcY = nat \<lfloor>js_mul (of_nat y) (js_div (of_nat (png_height png)) (of_nat targetHeight))\<rfloor>
          in srcX < png_width png \<and> srcY < png_height png
             \<and> png_data (resizeImage png targetWidth targetHeight) ! ((y * targetWidth + x) * 4 + c)
                 = png_data png ! ((srcY * png_width png + srcX) * 4 + c)"
    unfolding Let_def srcX_def srcY_def srcCoord_def by simp
qed

lemma rampImage_fields: "png_width rampImage = 30" "png_height rampImage = 1" "wellFormed rampImage"
  by (simp_all add: rampImage_def wellFormed_def rgbaImage_length) (simp_all add: rgbaImage_def)

lemma rampImage_red: "x < 30 \<Longrightarrow> png_data rampImage ! (x * 4) = of_nat x"
  using rgbaImage_nth[of x 30 0 1 0 "\<lambda>x y. (of_nat x, 0, 0, 255)"]
  by (simp add: rampImage_def)

text \<open>The doubles \<^verbatim>\<open>30 / 22 = 1.3636363636363635\<close> and \<^verbatim>\<open>11 * (30 / 22) = 14.999999999999998\<close>.\<close>

lemma ramp_doubles:
  "js_div 30 22 = 6141272219141585 / 2 ^ 52"
  "js_mul 11 (js_div 30 22) = 8444249301319679 / 2 ^ 49"
  by code_simp+

lemma ramp_srcX: "srcCoord (js_div 30 22) 11 = 14"
  by code_simp

lemma ramp_srcY: "srcCoord (js_div 1 1) 0 = 0"
  by code_simp

lemma ramp_column_11:
  "png_data (resizeImage rampImage 22 1) ! (11 * 4) = 14"
proof -
  have ne: "\<not> (png_width rampImage = 22 \<and> png_height rampImage = 1)" by (simp add: rampImage_fields)
  have len: "length (png_data rampImage) = 120"
    using rampImage_fields by (simp add: wellFormed_def)
  from resizeImage_nth[OF ne, of 11 0 0]
  have "png_data (resizeImage rampImage 22 1) ! (11 * 4)
      = copiedByte rampImage (js_div 30 22) (js_div 1 1) 0 11 0"
    by (simp add: rampImage_fields)
  also have "\<dots> = png_data rampImage ! (14 * 4)"
    by (simp add: copiedByte_def ramp_srcX ramp_srcY rampImage_fields readByte_def len)
  also have "\<dots> = 14" using rampImage_red[of 14] by simp
  finally show ?thesis .
qed

theorem resize_nearest_neighbour_witness:
  "wellFormed rampImage \<and> png_width rampImage = 30 \<and> png_height rampImage = 1
   \<and> nat \<lfloor>js_mul (of_nat 11) (js_div (of_nat 30) (of_nat 22))\<rfloor> = 14
   \<and> png_data (resizeImage rampImage 22 1) ! ((0 * 22 + 11) * 4 + 0) = png_data rampImage ! ((0 * 30 + 14) * 4 + 0)
   \<and> length (png_data (resizeImage rampImage 22 1)) = 88
   \<and> resizeImage rampImage 30 1 = rampImage"
proof -
  have h: "wellFormed rampImage \<and> 1 \<le> png_width rampImage \<and> 1 \<le> png_height rampImage
      \<and> \<not> (png_width rampImage = 22 \<and> png_height rampImage = 1)
      \<and> (22::nat) \<le> 2 ^ 52 \<and> (1::nat) \<le> 2 ^ 52 \<and> (11::nat) < 22 \<and> (0::nat) < 1 \<and> (0::nat) < 4"
    by (simp add: rampImage_fields)
  have sx: "nat \<lfloor>js_mul (of_nat 11) (js_div (of_nat 30) (of_nat 22))\<rfloor> = 14"
    using ramp_srcX by (simp add: srcCoord_def)
  have sy: "nat \<lfloor>js_mul (of_nat 0) (js_div (of_nat 1) (of_nat 1))\<rfloor> = 0"
    using ramp_srcY by (simp add: srcCoord_def)
  note t = resize_nearest_neighbour[of rampImage 22 1 11 0 0]
  from t[THEN conjunct2, rule_format, OF h]
  have "length (png_data (resizeImage rampImage 22 1)) = 4 * 22 * 1"
    and "png_data (resizeImage rampImage 22 1) ! ((0 * 22 + 11) * 4 + 0)
         = png_data rampImage ! ((0 * 30 + 14) * 4 + 0)"
    unfolding Let_def rampImage_fields sx sy by simp_all
  moreover from t[THEN conjunct1] have "resizeImage rampImage 30 1 = rampImage"
    by (simp add: rampImage_fields)
  ultimately show ?thesis using sx by (simp add: rampImage_fields)
qed

text \<open>
  The claim as stated takes the source column of destination column 11 to be
  \<open>floor(11 * 30 / 22) = 15\<close>; the byte copied is that of column 14.
\<close>

theorem resize_exact_floor_counterexample:
  "\<lfloor>(11::rat) * 30 / 22\<rfloor> = 15
   \<and> \<lfloor>js_mul 11 (js_div 30 22)\<rfloor> = 14
   \<and> png_data rampImage ! (15 * 4) = 15
   \<and> png_data (resizeImage rampImage 22 1) ! (11 * 4) = 14
   \<and> png_data (resizeImage rampImage 22 1) ! (11 * 4) \<noteq> png_data rampImage ! (15 * 4)"
proof -
  have a: "\<lfloor>(11::rat) * 30 / 22\<rfloor> = 15" by simp
  have b: "png_data rampImage ! (15 * 4) = 15" using rampImage_red[of 15] by simp
  have c: "\<lfloor>js_mul 11 (js_div 30 22)\<rfloor> = 14" by code_simp
  show ?thesis unfolding b c ramp_column_11 using a by simp
qed

section \<open>Claims on identical inputs and on the alpha channel\<close>

text \<open>
  C8. Comparing a well-formed image (width and height at least 1) against a
  byte-identical copy of itself, at frame dimensions at least 1 and at any sensitivity
  level (1 to 5 or any other value), yields \<open>diffScore = 0\<close> and no issues.
  \<^verbatim>\<open>pixelmatch\<close> is the library's: it is taken to return 0 on two identical buffers of the
  size given by the dimensions (a count of 0 is what pixel-identical means).
\<close>

theorem identical_images_match:
  assumes "wellFormed img" "1 \<le> png_width img" "1 \<le> png_height img"
    and "1 \<le> dim_width dims" "1 \<le> dim_height dims"
    and "\<forall>d w h t. length d = 4 * w * h \<longrightarrow> pixelmatch d d w h t = Inr 0"
  shows "\<exists>r. performComparison pixelmatch img img dims sensitivity = Inr r
            \<and> diffScore r = Some 0 \<and> issues r = []
            \<and> resolution r = \<lparr>dim_width = min (png_width img) (dim_width dims),
                               dim_height = min (png_height img) (dim_height dims)\<rparr>"
proof -
  define width where "width = min (min (png_width img) (png_width img)) (dim_width dims)"
  define height where "height = min (min (png_height img) (png_height img)) (dim_height dims)"
  define R where "R = resizeImage img width height"
  have pos: "width * height \<noteq> 0" using assms(2-5) by (simp add: width_def height_def)
  have "length (png_data R) = 4 * width * height"
    unfolding R_def by (rule resizeImage_dims[OF assms(1)])
  with assms(6) have pm: "pixelmatch (png_data R) (png_data R) width height (pixelmatchThreshold sensitivity) = Inr 0"
    by blast
  have "performComparison pixelmatch img img dims sensitivity =
      Inr \<lparr>diffScore = Some (js_div 0 (of_nat (width * height))),
           resolution = \<lparr>dim_width = width, dim_height = height\<rparr>,
           issues = analyzeImageDifferences R R width height sensitivity\<rparr>"
    unfolding performComparison_def Let_def width_def[symmetric] height_def[symmetric] R_def[symmetric] pm
    using pos by simp
  then show ?thesis
    by (simp add: analyze_same js_div_def roundToDouble_zero width_def height_def)
qed

lemma exactPixelmatch_same:
  "\<forall>d w h t. length d = 4 * w * h \<longrightarrow> exactPixelmatch d d w h t = Inr 0"
  by (simp add: exactPixelmatch_def mult_ac)

theorem identical_images_match_witness:
  "wellFormed (cornerImage True True)
   \<and> (\<exists>r. performComparison exactPixelmatch (cornerImage True True) (cornerImage True True)
             \<lparr>dim_width = 80, dim_height = 60\<rparr> 5 = Inr r
          \<and> diffScore r = Some 0 \<and> issues r = []
          \<and> resolution r = \<lparr>dim_width = 80, dim_height = 60\<rparr>)"
proof -
  have w: "wellFormed (cornerImage True True)" using scenario_wellFormed[of True True] by simp
  have d: "png_width (cornerImage True True) = 100" "png_height (cornerImage True True) = 100"
    by (simp_all add: cornerImage_def rgbaImage_def)
  have a: "1 \<le> png_width (cornerImage True True)" "1 \<le> png_height (cornerImage True True)"
    "1 \<le> dim_width \<lparr>dim_width = 80, dim_height = 60\<rparr>" "1 \<le> dim_height \<lparr>dim_width = 80, dim_height = 60\<rparr>"
    by (simp_all add: d)
  from identical_images_match[where pixelmatch=exactPixelmatch and img="cornerImage True True"
      and dims="\<lparr>dim_width = 80, dim_height = 60\<rparr>" and sensitivity=5, OF w a exactPixelmatch_same] w
  show ?thesis
    by (simp add: d)
qed

text \<open>
  C9. Two runs whose screenshot buffers have the same length and agree on every byte
  but the alpha bytes (indices congruent to 3 modulo 4), whose reference buffers do
  likewise, and which agree on width, height and sensitivity, return the same issues.
\<close>

theorem analyze_ignores_alpha:
  assumes "length (png_data screenshot) = length (png_data screenshot')"
    and "\<forall>i < length (png_data screenshot). i mod 4 \<noteq> 3 \<longrightarrow> png_data screenshot ! i = png_data screenshot' ! i"
    and "length (png_data figma) = length (png_data figma')"
    and "\<forall>i < length (png_data figma). i mod 4 \<noteq> 3 \<longrightarrow> png_data figma ! i = png_data figma' ! i"
  shows "analyzeImageDifferences screenshot figma width height sensitivity
           = analyzeImageDifferences screenshot' figma' width height sensitivity"
  using assms by (intro analyze_offAlpha) (simp_all add: agreeOffAlpha_def)

lemma rgbaImage_offAlpha:
  assumes "\<And>x y. (case colour x y of (r, g, b, a) \<Rightarrow> (r, g, b)) = (case colour' x y of (r, g, b, a) \<Rightarrow> (r, g, b))"
  shows "length (png_data (rgbaImage w h colour)) = length (png_data (rgbaImage w h colour'))"
    and "\<forall>i < length (png_data (rgbaImage w h colour)). i mod 4 \<noteq> 3 \<longrightarrow>
           png_data (rgbaImage w h colour) ! i = png_data (rgbaImage w h colour') ! i"
proof -
  show "length (png_data (rgbaImage w h colour)) = length (png_data (rgbaImage w h colour'))"
    by (simp add: rgbaImage_length)
  show "\<forall>i < length (png_data (rgbaImage w h colour)). i mod 4 \<noteq> 3 \<longrightarrow>
           png_data (rgbaImage w h colour) ! i = png_data (rgbaImage w h colour') ! i"
  proof (intro allI impI)
    fix i
    assume i: "i < length (png_data (rgbaImage w h colour))" and m: "i mod 4 \<noteq> 3"
    define k where "k = i div 4"
    define c where "c = i mod 4"
    have c: "c < 3" using m unfolding c_def by presburger
    then have c4: "c < 4" by simp
    have ik: "i = k * 4 + c" unfolding k_def c_def by simp
    from i have "k * 4 + c < (w * h) * 4" unfolding ik by (simp add: rgbaImage_length mult_ac)
    then have k: "k < w * h" by simp
    then have w: "0 < w" by (cases w) simp_all
    define x where "x = k mod w"
    define y where "y = k div w"
    have x: "x < w" unfolding x_def using w by simp
    have y: "y < h" unfolding y_def using k w by (simp add: less_mult_imp_div_less mult.commute)
    have kxy: "k = y * w + x" unfolding x_def y_def by simp
    obtain r g b a where p: "colour x y = (r, g, b, a)" by (cases "colour x y")
    obtain r' g' b' a' where p': "colour' x y = (r', g', b', a')" by (cases "colour' x y")
    from assms[of x y] p p' have e: "r = r'" "g = g'" "b = b'" by simp_all
    have "[r, g, b, a] ! c = [r', g', b', a'] ! c"
      using c e by (cases c) (simp_all add: nth_Cons')
    then show "png_data (rgbaImage w h colour) ! i = png_data (rgbaImage w h colour') ! i"
      unfolding ik kxy rgbaImage_nth[OF x y c4] p p' by simp
  qed
qed

theorem analyze_ignores_alpha_witness:
  "analyzeImageDifferences fadedCornerImage fadedSolidImage 100 100 3 = [scenarioIssue False False]
   \<and> png_data fadedCornerImage ! 3 \<noteq> png_data (cornerImage False False) ! 3
   \<and> png_data fadedSolidImage ! 3 \<noteq> png_data solidImage ! 3"
proof -
  note a = rgbaImage_offAlpha[of "\<lambda>x y. if inCorner False False x y then (255, 255, 255, 0) else (0, 0, 0, 128)"
      "\<lambda>x y. if inCorner False False x y then white else black" 100 100,
      folded fadedCornerImage_def cornerImage_def]
  note b = rgbaImage_offAlpha[of "\<lambda>x y. (0, 0, 0, 17)" "\<lambda>x y. black" 100 100,
      folded fadedSolidImage_def solidImage_def]
  have a1: "length (png_data fadedCornerImage) = length (png_data (cornerImage False False))"
    and a2: "\<forall>i < length (png_data fadedCornerImage). i mod 4 \<noteq> 3 \<longrightarrow>
           png_data fadedCornerImage ! i = png_data (cornerImage False False) ! i"
    by (rule a; simp add: white_def black_def)+
  have b1: "length (png_data fadedSolidImage) = length (png_data solidImage)"
    and b2: "\<forall>i < length (png_data fadedSolidImage). i mod 4 \<noteq> 3 \<longrightarrow>
           png_data fadedSolidImage ! i = png_data solidImage ! i"
    by (rule b; simp add: black_def)+
  have f: "png_data fadedCornerImage ! ((0 * 100 + 0) * 4 + 3) = 0"
    unfolding fadedCornerImage_def by (subst rgbaImage_nth) (simp_all add: inCorner_def)
  have g: "png_data (cornerImage False False) ! ((0 * 100 + 0) * 4 + 3) = 255"
    unfolding cornerImage_def by (subst rgbaImage_nth) (simp_all add: inCorner_def white_def)
  have f': "png_data fadedSolidImage ! ((0 * 100 + 0) * 4 + 3) = 17"
    unfolding fadedSolidImage_def by (subst rgbaImage_nth) simp_all
  have g': "png_data solidImage ! ((0 * 100 + 0) * 4 + 3) = 255"
    unfolding solidImage_def by (subst rgbaImage_nth) (simp_all add: black_def)
  from analyze_ignores_alpha[OF a1 a2 b1 b2, of 100 100 3] scenario_issues[of False False] f g f' g'
  show ?thesis by simp
qed

section \<open>Clusters produced by the traversal\<close>

lemma properCluster_empty: "properCluster emptyCluster"
  by (simp add: properCluster_def emptyCluster_def)

lemma finiteCluster_proper: "finiteCluster c \<Longrightarrow> properCluster c"
  by (auto simp: finiteCluster_def properCluster_def)

lemma absorbBlock_finite: "properCluster c \<Longrightarrow> finiteCluster (absorbBlock cx cy c)"
  unfolding properCluster_def finiteCluster_def absorbBlock_def
  by (cases "minX c"; cases "minY c"; cases "maxX c"; cases "maxY c") simp_all

lemma floodFill_Nil:
  "floodFill blocksX blocksY activeBlocks [] visited cluster = (visited, cluster)"
  by (subst floodFill.simps) simp

lemma floodFill_Cons:
  assumes "length visited = length activeBlocks"
    and "fold (visitNeighbor blocksX blocksY activeBlocks)
           (neighbors (currIdx mod blocksX) (currIdx div blocksX)) (rest, visited) = (stack', visited')"
  shows "floodFill blocksX blocksY activeBlocks (currIdx # rest) visited cluster =
           floodFill blocksX blocksY activeBlocks stack' visited'
             (absorbBlock (currIdx mod blocksX) (currIdx div blocksX) cluster)"
  using assms by (subst floodFill.simps) (simp add: Let_def)

lemma floodFill_bounds:
  assumes "length visited = length activeBlocks" "properCluster cluster"
    and "stack \<noteq> [] \<or> finiteCluster cluster"
  shows "length (fst (floodFill blocksX blocksY activeBlocks stack visited cluster)) = length activeBlocks
       \<and> finiteCluster (snd (floodFill blocksX blocksY activeBlocks stack visited cluster))"
  using assms
proof (induction "2 * unvisited activeBlocks visited + length stack" arbitrary: stack visited cluster
    rule: less_induct)
  case less
  show ?case
  proof (cases stack)
    case Nil
    with less.prems show ?thesis by (simp add: floodFill_Nil)
  next
    case (Cons currIdx rest)
    obtain stack' visited' where f: "fold (visitNeighbor blocksX blocksY activeBlocks)
        (neighbors (currIdx mod blocksX) (currIdx div blocksX)) (rest, visited) = (stack', visited')"
      by (cases "fold (visitNeighbor blocksX blocksY activeBlocks)
        (neighbors (currIdx mod blocksX) (currIdx div blocksX)) (rest, visited)")
    from fold_visitNeighbor_measure[OF less.prems(1) f]
    have len: "length visited' = length activeBlocks"
      and m: "2 * unvisited activeBlocks visited' + length stack'
          \<le> 2 * unvisited activeBlocks visited + length rest" by simp_all
    from m Cons have dec: "2 * unvisited activeBlocks visited' + length stack'
        < 2 * unvisited activeBlocks visited + length stack" by simp
    have fin: "finiteCluster (absorbBlock (currIdx mod blocksX) (currIdx div blocksX) cluster)"
      using less.prems(2) by (rule absorbBlock_finite)
    from less.hyps[OF dec len finiteCluster_proper[OF fin]] fin
    show ?thesis unfolding Cons floodFill_Cons[OF less.prems(1) f] by simp
  qed
qed

text \<open>
  In \<open>findClusters\<close> the array \<open>visited\<close> keeps the length of \<open>activeBlocks\<close>, so the first
  test of \<open>floodFill\<close> never applies there, and every cluster found has absorbed a block:
  the callback that turns clusters into issues meets clusters with numeric bounds only.
\<close>

lemma seedCluster_invariant:
  assumes "length visited = length activeBlocks" "\<forall>c \<in> set clusters. finiteCluster c"
    and "seedCluster blocksX blocksY activeBlocks i (visited, clusters) = (visited', clusters')"
  shows "length visited' = length activeBlocks \<and> (\<forall>c \<in> set clusters'. finiteCluster c)"
proof (cases "flagAt activeBlocks i \<and> \<not> flagAt visited i")
  case False
  with assms show ?thesis by (auto simp: seedCluster_def)
next
  case True
  have l: "length (visited[i := True]) = length activeBlocks" using assms(1) by simp
  note b = floodFill_bounds[OF l properCluster_empty, of "[i]" blocksX blocksY]
  obtain v c where r: "floodFill blocksX blocksY activeBlocks [i] (visited[i := True]) emptyCluster = (v, c)"
    by (cases "floodFill blocksX blocksY activeBlocks [i] (visited[i := True]) emptyCluster")
  with b have "length v = length activeBlocks" "finiteCluster c" by simp_all
  moreover from True r assms(3) have "visited' = v" "clusters' = clusters @ [c]"
    by (simp_all add: seedCluster_def)
  ultimately show ?thesis using assms(2) by simp
qed

lemma findClusters_finite:
  assumes "length activeBlocks = blocksX * blocksY"
  shows "\<forall>c \<in> set (findClusters blocksX blocksY activeBlocks). finiteCluster c"
proof -
  have inv: "length (fst (fold (seedCluster blocksX blocksY activeBlocks) is st)) = length activeBlocks
      \<and> (\<forall>c \<in> set (snd (fold (seedCluster blocksX blocksY activeBlocks) is st)). finiteCluster c)"
    if "length (fst st) = length activeBlocks" "\<forall>c \<in> set (snd st). finiteCluster c" for "is" st
    using that
  proof (induction "is" arbitrary: st)
    case Nil
    then show ?case by simp
  next
    case (Cons i "is")
    obtain visited clusters where st: "st = (visited, clusters)" by (cases st)
    obtain visited' clusters' where s: "seedCluster blocksX blocksY activeBlocks i (visited, clusters) = (visited', clusters')"
      by (cases "seedCluster blocksX blocksY activeBlocks i (visited, clusters)")
    from seedCluster_invariant[OF _ _ s] Cons.prems st
    have "length (fst (visited', clusters')) = length activeBlocks"
      "\<forall>c \<in> set (snd (visited', clusters')). finiteCluster c" by simp_all
    from Cons.IH[OF this] show ?case by (simp add: st s)
  qed
  show ?thesis unfolding findClusters_def using inv[of "(replicate (blocksX * blocksY) False, [])"] assms
    by simp
qed

lemma analyze_clusters_finite:
  "\<forall>c \<in> set (findClusters (blocksAcross width) (blocksAcross height)
                 (markActiveBlocks config screenshot figma width height)). finiteCluster c"
  by (rule findClusters_finite) (rule markActiveBlocks_length)

section \<open>Where the rounding changes nothing\<close>

text \<open>Below \<open>2^53\<close> the rounding of the quotient does not change the number of blocks.\<close>

lemma blocksAcross_exact:
  assumes "width < 2 ^ 53"
  shows "blocksAcross width = (width + 19) div 20"
proof (cases "width mod 20 = 0")
  case True
  then obtain k where k: "width = 20 * k" by (auto simp: mod_eq_0_iff_dvd)
  with assms have "k < 2 ^ 53" by simp
  then have "roundToDouble (of_nat k) = of_nat k" by (rule roundToDouble_nat)
  then show ?thesis by (simp add: blocksAcross_def js_div_def BLOCK_SIZE_def k)
next
  case False
  define k where "k = width div 20"
  define r where "r = width mod 20"
  have r: "1 \<le> r" "r \<le> 19" using False unfolding r_def by simp_all
  have w: "width = 20 * k + r" unfolding k_def r_def by simp
  define q :: rat where "q = of_nat width / 20"
  have q: "q = of_nat k + of_nat r / 20" unfolding q_def w by simp
  have qpos: "0 < q" unfolding q using r by (simp add: add_nonneg_pos)
  have "q / 2 ^ 53 < 1 / 20"
  proof -
    have "(of_nat width :: rat) < 2 ^ 53" using assms
      by (metis of_nat_less_iff of_nat_numeral of_nat_power)
    then show ?thesis unfolding q_def by simp
  qed
  with roundToDouble_error[OF qpos] have e: "\<bar>roundToDouble q - q\<bar> < 1 / 20" by simp
  have lo: "of_nat k + 1 / 20 \<le> q" and hi: "q \<le> of_nat k + 19 / 20"
    unfolding q using r by (simp_all add: divide_le_cancel)
  from e have e1: "q - roundToDouble q < 1 / 20" and e2: "roundToDouble q - q < 1 / 20"
    by (simp_all only: abs_less_iff minus_diff_eq)
  from e1 lo have "of_nat k < roundToDouble q" by linarith
  then have a: "of_int (int k) < roundToDouble q" by simp
  from e2 hi have "roundToDouble q \<le> of_nat k + 1" by linarith
  then have b: "roundToDouble q \<le> of_int (int k + 1)" by simp
  from a b have "\<lceil>roundToDouble q\<rceil> = int k + 1" by (simp add: ceiling_eq_iff algebra_simps)
  moreover have "(width + 19) div 20 = k + 1" unfolding w using r by simp
  ultimately show ?thesis by (simp add: blocksAcross_def js_div_def BLOCK_SIZE_def q_def)
qed

text \<open>Below \<open>2^53\<close> the rounding of the mean does not change the comparison with the
  (integer) pixel threshold.\<close>

lemma pixelDiff_exact:
  assumes "s < 2 ^ 53"
  shows "of_nat t < js_div (of_nat s) 3 \<longleftrightarrow> 3 * t < s"
proof (cases "s mod 3 = 0")
  case True
  then obtain k where k: "s = 3 * k" by (auto simp: mod_eq_0_iff_dvd)
  with assms have "k < 2 ^ 53" by simp
  then have "roundToDouble (of_nat k) = of_nat k" by (rule roundToDouble_nat)
  then show ?thesis by (simp add: js_div_def k)
next
  case False
  define k where "k = s div 3"
  define r where "r = s mod 3"
  have r: "1 \<le> r" "r \<le> 2" using False unfolding r_def by simp_all
  have w: "s = 3 * k + r" unfolding k_def r_def by simp
  define q :: rat where "q = of_nat s / 3"
  have q: "q = of_nat k + of_nat r / 3" unfolding q_def w by simp
  have qpos: "0 < q" unfolding q using r by (simp add: add_nonneg_pos)
  have "q / 2 ^ 53 < 1 / 3"
  proof -
    have "(of_nat s :: rat) < 2 ^ 53" using assms
      by (metis of_nat_less_iff of_nat_numeral of_nat_power)
    then show ?thesis unfolding q_def by simp
  qed
  with roundToDouble_error[OF qpos] have e: "\<bar>roundToDouble q - q\<bar> < 1 / 3" by simp
  have lo: "of_nat k + 1 / 3 \<le> q" and hi: "q \<le> of_nat k + 2 / 3"
    unfolding q using r by (simp_all add: divide_le_cancel)
  from e have e1: "q - roundToDouble q < 1 / 3" and e2: "roundToDouble q - q < 1 / 3"
    by (simp_all only: abs_less_iff minus_diff_eq)
  from e1 lo have a: "of_nat k < roundToDouble q" by linarith
  from e2 hi have b: "roundToDouble q < of_nat k + 1" by linarith
  have "of_nat t < roundToDouble q \<longleftrightarrow> t \<le> k"
  proof
    assume "of_nat t < roundToDouble q"
    with b have "(of_nat t :: rat) < of_nat (k + 1)" by simp
    then have "t < k + 1" by (simp only: of_nat_less_iff)
    then show "t \<le> k" by simp
  next
    assume "t \<le> k"
    then have "(of_nat t :: rat) \<le> of_nat k" by simp
    with a show "of_nat t < roundToDouble q" by simp
  qed
  also have "\<dots> \<longleftrightarrow> 3 * t < s" unfolding w using r by auto
  finally show ?thesis by (simp add: js_div_def q_def)
qed

lemma roundToDouble_upper':
  assumes "0 \<le> q"
  shows "roundToDouble q \<le> q + q / 2 ^ 53"
proof (cases "q = 0")
  case True
  then show ?thesis by (simp add: roundToDouble_zero)
next
  case False
  with assms have q: "0 < q" by simp
  have "roundToDouble q - q \<le> \<bar>roundToDouble q - q\<bar>" by (rule abs_ge_self)
  also have "\<dots> \<le> q / 2 ^ 53" by (rule roundToDouble_error[OF q])
  finally show ?thesis by simp
qed

lemma roundToDouble_lower:
  assumes "0 \<le> q"
  shows "q - q / 2 ^ 53 \<le> roundToDouble q"
proof (cases "q = 0")
  case True
  then show ?thesis by (simp add: roundToDouble_zero)
next
  case False
  with assms have q: "0 < q" by simp
  have "q - roundToDouble q \<le> \<bar>roundToDouble q - q\<bar>" by (simp add: abs_le_iff)
  also have "\<dots> \<le> q / 2 ^ 53" by (rule roundToDouble_error[OF q])
  finally show ?thesis by simp
qed

text \<open>
  Two rationals between 0 and 1 that differ by at least \<open>1 / 40000\<close> keep their order
  when both are rounded: the ratio of a block of at most 400 pixels against a threshold
  given in hundredths.
\<close>

lemma roundToDouble_separated:
  assumes "0 \<le> a" "a \<le> 1" "0 \<le> b" "b \<le> 1" "a + 1 / 40000 \<le> b"
  shows "roundToDouble a < roundToDouble b"
proof -
  have "roundToDouble a \<le> a + a / 2 ^ 53" by (rule roundToDouble_upper'[OF assms(1)])
  also have "\<dots> \<le> a + 1 / 2 ^ 53" using assms(2) by (simp add: divide_right_mono)
  also have "\<dots> < b - 1 / 2 ^ 53" using assms(5) by simp
  also have "\<dots> \<le> b - b / 2 ^ 53" using assms(4) by (simp add: divide_right_mono)
  also have "\<dots> \<le> roundToDouble b" by (rule roundToDouble_lower[OF assms(3)])
  finally show ?thesis .
qed

lemma blockRatio_exact:
  assumes "0 < t" "t \<le> 400" "d \<le> t" "c \<le> 100"
  shows "roundToDouble (of_nat c / 100) < js_div (of_nat d) (of_nat t) \<longleftrightarrow> c * t < 100 * d"
proof -
  define a :: rat where "a = of_nat c / 100"
  define b :: rat where "b = of_nat d / of_nat t"
  have T: "(0::rat) < of_nat t" using assms(1) by simp
  have a01: "0 \<le> a" "a \<le> 1" using assms(4) by (simp_all add: a_def)
  have b01: "0 \<le> b" "b \<le> 1" using assms(1,3) by (simp_all add: b_def)
  have "b - a = (100 * of_nat d - of_nat c * of_nat t) / (100 * of_nat t)"
    using T unfolding a_def b_def by (simp add: diff_divide_eq_iff divide_diff_eq_iff mult.commute)
  also have "100 * of_nat d - of_nat c * of_nat t = (of_int (100 * int d - int c * int t) :: rat)"
    by simp
  finally have diff: "b - a = (of_int (100 * int d - int c * int t)) / (100 * of_nat t)" .
  have "(of_nat t :: rat) \<le> of_nat 400" using assms(2) by (simp only: of_nat_le_iff)
  then have t400: "(100 * of_nat t :: rat) \<le> 40000" by simp
  consider "c * t < 100 * d" | "c * t = 100 * d" | "100 * d < c * t" by linarith
  then show ?thesis
  proof cases
    case 1
    then have "int (c * t) < int (100 * d)" by (simp only: of_nat_less_iff)
    then have "int c * int t < 100 * int d" by simp
    then have "1 \<le> 100 * int d - int c * int t" by linarith
    then have "(1::rat) \<le> of_int (100 * int d - int c * int t)" by (simp only: of_int_1_le_iff)
    then have "1 / (100 * of_nat t) \<le> b - a" unfolding diff using T by (simp add: divide_right_mono)
    moreover have "(1 / 40000 :: rat) \<le> 1 / (100 * of_nat t)"
      using t400 T by (intro divide_left_mono) simp_all
    ultimately have "a + 1 / 40000 \<le> b" by linarith
    from roundToDouble_separated[OF a01 b01 this] 1 show ?thesis
      by (simp add: a_def b_def js_div_def)
  next
    case 2
    then have "int (c * t) = int (100 * d)" by simp
    then have "int c * int t = 100 * int d" by simp
    then have "b - a = 0" unfolding diff by simp
    then have "a = b" by simp
    with 2 show ?thesis by (simp add: a_def b_def js_div_def)
  next
    case 3
    then have "int (100 * d) < int (c * t)" by (simp only: of_nat_less_iff)
    then have "100 * int d < int c * int t" by simp
    then have "1 \<le> int c * int t - 100 * int d" by linarith
    then have "(1::rat) \<le> of_int (int c * int t - 100 * int d)" by (simp only: of_int_1_le_iff)
    moreover have "a - b = (of_int (int c * int t - 100 * int d)) / (100 * of_nat t)"
    proof -
      have "a - b = - (b - a)" by simp
      also have "\<dots> = (- of_int (100 * int d - int c * int t)) / (100 * of_nat t)"
        unfolding diff by (rule minus_divide_left)
      also have "- of_int (100 * int d - int c * int t) = (of_int (int c * int t - 100 * int d) :: rat)"
        by simp
      finally show ?thesis .
    qed
    ultimately have "1 / (100 * of_nat t) \<le> a - b" using T by (simp add: divide_right_mono)
    moreover have "(1 / 40000 :: rat) \<le> 1 / (100 * of_nat t)"
      using t400 T by (intro divide_left_mono) simp_all
    ultimately have "b + 1 / 40000 \<le> a" by linarith
    from roundToDouble_separated[OF b01 a01 this] 3 show ?thesis
      by (simp add: a_def b_def js_div_def not_less less_imp_le)
  qed
qed

lemma blockThreshold_percent:
  "blockThreshold (sensitivityConfig sensitivity) = roundToDouble (of_nat (thresholdPercent sensitivity) / 100)"
  by (simp add: sensitivityConfig_def thresholdPercent_def)

lemma sum_list_length_filter_le:
  "sum_list (map (\<lambda>y. length (filter (P y) xs)) ys) \<le> length ys * length xs"
proof (induction ys)
  case Nil
  then show ?case by simp
next
  case (Cons y ys)
  have "length (filter (P y) xs) + sum_list (map (\<lambda>y. length (filter (P y) xs)) ys)
      \<le> length xs + length ys * length xs"
    by (rule add_mono[OF length_filter_le Cons])
  then show ?case by simp
qed

lemma sum_list_length_filter_mono:
  "sum_list (map (\<lambda>y. length (filter (\<lambda>x. P y x \<and> Q y x) xs)) ys)
     \<le> sum_list (map (\<lambda>y. length (filter (P y) xs)) ys)"
proof (induction ys)
  case Nil
  then show ?case by simp
next
  case (Cons y ys)
  have eq: "filter (\<lambda>x. P y x \<and> Q y x) xs = filter (Q y) (filter (P y) xs)"
    by (simp add: conj_commute)
  have "length (filter (\<lambda>x. P y x \<and> Q y x) xs) \<le> length (filter (P y) xs)"
    unfolding eq by (rule length_filter_le)
  from add_mono[OF this Cons] show ?case by simp
qed

lemma scanBlock_bounds:
  "fst (scanBlock config screenshot figma width height bx by)
     \<le> snd (scanBlock config screenshot figma width height bx by)
   \<and> snd (scanBlock config screenshot figma width height bx by) \<le> 400"
proof -
  let ?xs = "[bx * BLOCK_SIZE..<min (bx * BLOCK_SIZE + BLOCK_SIZE) width]"
  let ?ys = "[by * BLOCK_SIZE..<min (by * BLOCK_SIZE + BLOCK_SIZE) height]"
  have lx: "length ?xs \<le> 20" and ly: "length ?ys \<le> 20" by (simp_all add: BLOCK_SIZE_def)
  have "sum_list (map (\<lambda>y. length (filter (pixelInRange screenshot width y) ?xs)) ?ys)
      \<le> length ?ys * length ?xs" by (rule sum_list_length_filter_le)
  also have "\<dots> \<le> 20 * 20" using lx ly by (rule mult_le_mono[rotated])
  finally have t: "sum_list (map (\<lambda>y. length (filter (pixelInRange screenshot width y) ?xs)) ?ys) \<le> 400"
    by simp
  have d: "sum_list (map (\<lambda>y. length (filter (\<lambda>x. pixelInRange screenshot width y x
                       \<and> pixelDiffers config screenshot figma width y x) ?xs)) ?ys)
      \<le> sum_list (map (\<lambda>y. length (filter (pixelInRange screenshot width y) ?xs)) ?ys)"
    by (rule sum_list_length_filter_mono)
  from d t show ?thesis unfolding scanBlock_counts by simp
qed

text \<open>
  The analysis in exact arithmetic: on blocks of at most 400 pixels and bytes of at most
  255 the rounding of the two quotients changes no comparison. A pixel counts when the
  sum of its three channel differences exceeds three times the pixel threshold, a block
  is active when its share of such pixels exceeds the block threshold.
\<close>

lemma blockIsActive_exact:
  "blockIsActive (sensitivityConfig sensitivity) screenshot figma width height bx by \<longleftrightarrow>
     thresholdPercent sensitivity * snd (scanBlock (sensitivityConfig sensitivity) screenshot figma width height bx by)
       < 100 * fst (scanBlock (sensitivityConfig sensitivity) screenshot figma width height bx by)"
proof -
  obtain d t where dt: "scanBlock (sensitivityConfig sensitivity) screenshot figma width height bx by = (d, t)"
    by (cases "scanBlock (sensitivityConfig sensitivity) screenshot figma width height bx by")
  from scanBlock_bounds[of "sensitivityConfig sensitivity" screenshot figma width height bx "by"] dt
  have b: "d \<le> t" "t \<le> 400" by simp_all
  have c: "thresholdPercent sensitivity \<le> 100" by (simp add: thresholdPercent_def)
  show ?thesis
  proof (cases "t = 0")
    case True
    with b dt show ?thesis by (simp add: blockIsActive_def)
  next
    case False
    then have "0 < t" by simp
    from blockRatio_exact[OF this b(2) b(1) c] False dt show ?thesis
      by (simp add: blockIsActive_def blockThreshold_percent)
  qed
qed

lemma pixelDiffers_exact:
  "pixelDiffers config screenshot figma width y x \<longleftrightarrow>
     (let i = (y * width + x) * 4; s = png_data screenshot; f = png_data figma
      in i + 2 < length s \<and> i + 2 < length f
         \<and> 3 * int (pixelDiffThreshold config)
             < \<bar>int (unat (s ! i)) - int (unat (f ! i))\<bar>
               + \<bar>int (unat (s ! (i + 1))) - int (unat (f ! (i + 1)))\<bar>
               + \<bar>int (unat (s ! (i + 2))) - int (unat (f ! (i + 2)))\<bar>)"
proof -
  define i where "i = (y * width + x) * 4"
  define s where "s = png_data screenshot"
  define f where "f = png_data figma"
  define r where "r = nat \<bar>int (unat (s ! i)) - int (unat (f ! i))\<bar>"
  define g where "g = nat \<bar>int (unat (s ! (i + 1))) - int (unat (f ! (i + 1)))\<bar>"
  define b where "b = nat \<bar>int (unat (s ! (i + 2))) - int (unat (f ! (i + 2)))\<bar>"
  have byte: "unat (w :: byte) < 256" for w using unsigned_less[of w] by simp
  have "r \<le> 255" "g \<le> 255" "b \<le> 255"
    unfolding r_def g_def b_def
    using byte[of "s ! i"] byte[of "f ! i"] byte[of "s ! (i + 1)"] byte[of "f ! (i + 1)"]
      byte[of "s ! (i + 2)"] byte[of "f ! (i + 2)"]
    by linarith+
  then have "r + g + b < 2 ^ 53" by simp
  note e = pixelDiff_exact[OF this, of "pixelDiffThreshold config"]
  have sum: "3 * int (pixelDiffThreshold config)
             < \<bar>int (unat (s ! i)) - int (unat (f ! i))\<bar>
               + \<bar>int (unat (s ! (i + 1))) - int (unat (f ! (i + 1)))\<bar>
               + \<bar>int (unat (s ! (i + 2))) - int (unat (f ! (i + 2)))\<bar>
          \<longleftrightarrow> 3 * pixelDiffThreshold config < r + g + b"
    unfolding r_def g_def b_def by linarith
  have "fst (scanPixel config screenshot figma width y x (0, 0)) = 1 \<longleftrightarrow>
      i + 2 < length s \<and> i + 2 < length f \<and> 3 * pixelDiffThreshold config < r + g + b"
  proof (cases "i + 2 < length s")
    case False
    then show ?thesis
      unfolding scanPixel_def Let_def i_def[symmetric] s_def[symmetric] by simp
  next
    case s2: True
    show ?thesis
    proof (cases "i + 2 < length f")
      case False
      then have "readByte f (i + 2) = None" by (simp add: readByte_def)
      with s2 False show ?thesis
        unfolding scanPixel_def Let_def channelDiff_def i_def[symmetric] s_def[symmetric] f_def[symmetric]
        by (simp split: option.splits)
    next
      case True
      then have rd: "readByte f i = Some (f ! i)" "readByte f (i + 1) = Some (f ! (i + 1))"
        "readByte f (i + 2) = Some (f ! (i + 2))" by (simp_all add: readByte_def)
      have cd: "channelDiff s f i = Some r" "channelDiff s f (i + 1) = Some g"
        "channelDiff s f (i + 2) = Some b"
        unfolding channelDiff_def rd r_def g_def b_def by simp_all
      from s2 True e show ?thesis
        unfolding scanPixel_def Let_def i_def[symmetric] s_def[symmetric] f_def[symmetric] cd
        by simp
    qed
  qed
  then show ?thesis
    unfolding pixelDiffers_def Let_def i_def[symmetric] s_def[symmetric] f_def[symmetric] sum .
qed

end
